theory Spec2Isabelle
  imports Main "HOL-Library.AList"
begin

section \<open>JavaScript values and host objects\<close>

text \<open>
  Opaque payloads, metadata snapshots and request parameters are JavaScript values.
  Numbers are restricted to integers (no NaN, no fractions); this only matters for
  the truthiness test, which the source applies to \<^verbatim>\<open>self.request\<close> and to the
  argument of \<^verbatim>\<open>getResponse\<close>.
\<close>

datatype jsval =
    JUndefined
  | JNull
  | JBool bool
  | JNum int
  | JStr string
  | JObj "(string \<times> jsval) list"
  | JArr "jsval list"

fun truthy :: "jsval \<Rightarrow> bool" where
  "truthy JUndefined = False"
| "truthy JNull = False"
| "truthy (JBool b) = b"
| "truthy (JNum n) = (n \<noteq> 0)"
| "truthy (JStr s) = (s \<noteq> [])"
| "truthy (JObj kvs) = True"
| "truthy (JArr vs) = True"

text \<open>\<^verbatim>\<open>request || {}\<close>\<close>

definition orEmptyObject :: "jsval \<Rightarrow> jsval" where
  "orEmptyObject v = (if truthy v then v else JObj [])"

datatype error = TypeError | RangeError

text \<open>
  A domain object of the host framework, reduced to what the two components read:
  \<^verbatim>\<open>getId()\<close>, \<^verbatim>\<open>getModel()\<close> (with its \<^verbatim>\<open>name\<close>), the telemetry capability
  (\<open>None\<close> when \<^verbatim>\<open>getCapability('telemetry')\<close> is falsy, otherwise the value its
  \<^verbatim>\<open>getMetadata()\<close> returns) and the composition capability (\<open>None\<close> when
  \<^verbatim>\<open>hasCapability('composition')\<close> is false, otherwise the children the promise of
  \<^verbatim>\<open>useCapability('composition')\<close> resolves to).
\<close>

datatype model = Model (name: string) (fields: "(string \<times> jsval) list")

datatype domainObject =
  DomainObject (getId: string) (getModel: model)
    (telemetry: "jsval option") (composition: "domainObject list option")

section \<open>TelemetryController: state\<close>

text \<open>
  The containers built by \<^verbatim>\<open>buildResponseContainer\<close> are JavaScript objects that the
  closures of \<^verbatim>\<open>requestTelemetryForId\<close> keep a reference to, so they live in a heap
  (a list, the address being the index) and \<^verbatim>\<open>self.response\<close> maps an identifier to
  an address.

  \<^verbatim>\<open>self.response\<close> is a plain object used as a dictionary, read and written with
  \<^verbatim>\<open>self.response[id]\<close>. For every key but one an assignment creates or replaces an
  own property. The key \<^verbatim>\<open>__proto__\<close> is the accessor that plain objects inherit:
  assigning a container to it makes the container the prototype of \<^verbatim>\<open>self.response\<close>
  and creates no own property, and reading it returns that prototype. So the field
  \<open>response\<close> holds the own properties under their keys and, under the key
  \<^verbatim>\<open>__proto__\<close>, the prototype when a container has been installed as such (\<open>None\<close>
  while the prototype is the initial one). The controller never enumerates the keys, so
  this is all it can see of the difference; a read of a key that is no own property
  goes on in the prototype, see \<open>entry\<close> and \<open>dataOf\<close>.
\<close>

record container =
  cname :: string
  cdomainObject :: domainObject
  metadata :: jsval
  cpending :: int
  data :: jsval

datatype fstatus = Outstanding | Fulfilled | Rejected

text \<open>
  One promise \<^verbatim>\<open>$q.when(telemetry.requestData(self.request)).then(storeData)\<close>:
  the container and the flag its closure captured, the parameters it was issued with,
  the \<^verbatim>\<open>$q.all\<close> it is a member of, and whether it has settled.
\<close>

record fetch =
  target :: nat
  trackPending :: bool
  params :: jsval
  batch :: nat
  status :: fstatus

text \<open>A callback waiting in \<^verbatim>\<open>$timeout\<close>, with the delay it was registered with.\<close>

datatype task = Broadcast | Poll jsval

text \<open>
  The fields of \<^verbatim>\<open>self\<close> come first; the remaining fields are the world around the
  controller: the heap of containers, the \<^verbatim>\<open>$timeout\<close> queue, every telemetry promise
  issued so far, the number of \<^verbatim>\<open>$q.all\<close> promises created, the delegation lookups
  whose promise is outstanding, the number of \<^verbatim>\<open>telemetryUpdate\<close> events broadcast
  and the lines given to \<^verbatim>\<open>$log.warn\<close>.
\<close>

record controller =
  ids :: "string list"
  response :: "string \<rightharpoonup> nat"
  request :: jsval
  pending :: int
  metadatas :: "jsval list"
  interval :: jsval
  refreshing :: bool
  broadcasting :: bool
  heap :: "container list"
  timers :: "task list"
  fetches :: "fetch list"
  batches :: nat
  lookups :: "domainObject option list"
  broadcasts :: nat
  warnings :: "string list"

section \<open>Errors as values\<close>

fun bindE :: "error + 'a \<Rightarrow> ('a \<Rightarrow> error + 'b) \<Rightarrow> error + 'b" where
  "bindE (Inl e) f = Inl e"
| "bindE (Inr x) f = f x"

fun mapE :: "('a \<Rightarrow> error + 'b) \<Rightarrow> 'a list \<Rightarrow> error + 'b list" where
  "mapE f [] = Inr []"
| "mapE f (x # xs) = bindE (f x) (\<lambda>y. bindE (mapE f xs) (\<lambda>ys. Inr (y # ys)))"

text \<open>
  \<^verbatim>\<open>self.response[id]\<close> where the source goes on to read a property of the container
  (\<^verbatim>\<open>responseObject.domainObject.getCapability(...)\<close>, \<^verbatim>\<open>self.response[id].metadata\<close>,
  \<^verbatim>\<open>self.response[id].domainObject\<close>). The source reads this way only identifiers of
  \<^verbatim>\<open>self.ids\<close>, which have an entry in every state the controller can reach (\<open>wf\<close>
  below, and \<^verbatim>\<open>buildResponseContainers\<close> reads the entries it has just assigned), so
  the branch without an entry is never taken. It is a TypeError: in
  \<^verbatim>\<open>requestTelemetryForId\<close> the read finds \<^verbatim>\<open>undefined\<close>, or along the prototype
  chain a field of the prototype container or a built-in of plain objects, none of
  which has a domain object to call \<^verbatim>\<open>getCapability\<close> on. (An address is the
  position at which \<^verbatim>\<open>buildResponseContainer\<close> has put the container, so the branch
  for an address outside the heap is never taken either.)
\<close>

definition entry :: "controller \<Rightarrow> string \<Rightarrow> error + (nat \<times> container)" where
  "entry s k =
     (case response s k of
        None \<Rightarrow> Inl TypeError
      | Some a \<Rightarrow> if a < length (heap s) then Inr (a, heap s ! a) else Inl TypeError)"

section \<open>TelemetryController: the accessors\<close>

definition getMetadata :: "controller \<Rightarrow> jsval list" where
  "getMetadata s = metadatas s"

definition getTelemetryObjects :: "controller \<Rightarrow> error + domainObject list" where
  "getTelemetryObjects s =
     mapE (\<lambda>k. bindE (entry s k) (\<lambda>(a, c). Inr (cdomainObject c))) (ids s)"

text \<open>
  The argument of \<^verbatim>\<open>getResponse\<close>: a JavaScript value (\<open>JUndefined\<close> when the
  argument is omitted) or a domain object.
\<close>

datatype arg = ArgVal jsval | ArgObj domainObject

text \<open>
  \<^verbatim>\<open>var id = arg && (typeof arg === 'string' ? arg : arg.getId())\<close>.
  A falsy argument is the value of \<open>id\<close>; a string is itself; a domain object gives
  its identifier; any other truthy value has no \<^verbatim>\<open>getId\<close> and the call throws.
\<close>

fun argId :: "arg \<Rightarrow> error + jsval" where
  "argId (ArgObj d) = Inr (JStr (getId d))"
| "argId (ArgVal (JStr k)) = Inr (JStr k)"
| "argId (ArgVal v) = (if truthy v then Inl TypeError else Inr v)"

text \<open>
  The property \<^verbatim>\<open>data\<close> of a JavaScript value that is plain data: an own property
  of an object, \<^verbatim>\<open>undefined\<close> for anything else.
\<close>

definition dataProperty :: "jsval \<Rightarrow> jsval" where
  "dataProperty v =
     (case v of
        JObj kvs \<Rightarrow> (case map_of kvs ''data'' of Some x \<Rightarrow> x | None \<Rightarrow> JUndefined)
      | _ \<Rightarrow> JUndefined)"

text \<open>
  \<^verbatim>\<open>(self.response[id] || {}).data\<close> for a truthy \<open>id\<close>, which is a non-empty
  string by \<open>argId\<close>. An identifier with an entry gives the payload of its container
  (for \<^verbatim>\<open>__proto__\<close> that is the container installed as the prototype). For any other
  identifier the read of \<^verbatim>\<open>self.response[id]\<close> goes on in the prototype. With a
  container as the prototype, the identifiers \<^verbatim>\<open>data\<close> and \<^verbatim>\<open>metadata\<close> find that
  container's payload and metadata, whose own property \<^verbatim>\<open>data\<close> is returned; the
  identifiers \<^verbatim>\<open>name\<close>, \<^verbatim>\<open>domainObject\<close> and \<^verbatim>\<open>pending\<close> find a string, a
  domain object of the host and the number 0, which have no property \<^verbatim>\<open>data\<close>. What
  plain objects inherit otherwise (\<^verbatim>\<open>toString\<close>, \<^verbatim>\<open>constructor\<close>, ...) are
  functions without a property \<^verbatim>\<open>data\<close>, and every other read finds
  \<^verbatim>\<open>undefined\<close>, replaced by \<^verbatim>\<open>{}\<close>.
\<close>

definition dataOf :: "controller \<Rightarrow> string \<Rightarrow> jsval" where
  "dataOf s k =
     (case response s k of
        Some a \<Rightarrow> if a < length (heap s) then data (heap s ! a) else JUndefined
      | None \<Rightarrow>
          (case response s ''__proto__'' of
             Some a \<Rightarrow>
               if a < length (heap s) then
                 (if k = ''data'' then dataProperty (data (heap s ! a))
                  else if k = ''metadata'' then dataProperty (metadata (heap s ! a))
                  else JUndefined)
               else JUndefined
           | None \<Rightarrow> JUndefined))"

text \<open>
  \<^verbatim>\<open>getResponse\<close> calls itself through \<^verbatim>\<open>self.ids.map(getResponse)\<close>. The first
  argument is the number of stack frames left: the engine throws a RangeError when
  the call stack is exhausted. A truthy \<open>id\<close> is a string by \<open>argId\<close>, which
  leaves the other branch of the case distinction below without use.
\<close>

fun getResponse :: "nat \<Rightarrow> controller \<Rightarrow> arg \<Rightarrow> error + jsval" where
  "getResponse 0 s x = Inl RangeError"
| "getResponse (Suc n) s x =
     bindE (argId x) (\<lambda>i.
       if truthy i then
         (case i of JStr k \<Rightarrow> Inr (dataOf s k) | _ \<Rightarrow> Inl TypeError)
       else
         bindE (mapE (\<lambda>k. getResponse n s (ArgVal (JStr k))) (ids s))
           (\<lambda>vs. Inr (JArr vs)))"

definition isRequestPending :: "controller \<Rightarrow> bool" where
  "isRequestPending s = (pending s > 0)"

section \<open>TelemetryController: the internal functions\<close>

fun foldE :: "('a \<Rightarrow> 's \<Rightarrow> error + 's) \<Rightarrow> 'a list \<Rightarrow> 's \<Rightarrow> error + 's" where
  "foldE f [] s = Inr s"
| "foldE f (x # xs) s = bindE (f x s) (foldE f xs)"

definition removeAt :: "nat \<Rightarrow> 'a list \<Rightarrow> 'a list" where
  "removeAt i xs = take i xs @ drop (Suc i) xs"

text \<open>
  \<^verbatim>\<open>doBroadcast\<close>: the flag is tested and set, and the broadcast itself is handed to
  \<^verbatim>\<open>$timeout\<close>.
\<close>

definition doBroadcast :: "controller \<Rightarrow> controller" where
  "doBroadcast s =
     (if \<not> broadcasting s
      then s\<lparr>broadcasting := True, timers := timers s @ [Broadcast]\<rparr>
      else s)"

text \<open>The callback \<^verbatim>\<open>doBroadcast\<close> hands to \<^verbatim>\<open>$timeout\<close>.\<close>

definition broadcastCallback :: "controller \<Rightarrow> controller" where
  "broadcastCallback s = (s\<lparr>broadcasting := False\<rparr>)\<lparr>broadcasts := broadcasts s + 1\<rparr>"

definition warnNoRequest :: "string \<Rightarrow> string" where
  "warnNoRequest k =
     ''Expected telemetry capability for '' @ k @ '' but found none. Cannot request data.''"

definition warnNoContainer :: "string \<Rightarrow> string" where
  "warnNoContainer k = ''Expected telemetry capability for '' @ k @ '' but none was found.''"

text \<open>
  \<^verbatim>\<open>requestTelemetryForId(id, trackPending)\<close>, called for the \<^verbatim>\<open>$q.all\<close> numbered
  \<open>b\<close>. Without a telemetry capability it warns, undoes the increment and returns
  no promise; otherwise one more telemetry promise is outstanding.
\<close>

definition requestTelemetryForId :: "nat \<Rightarrow> bool \<Rightarrow> string \<Rightarrow> controller \<Rightarrow> error + controller" where
  "requestTelemetryForId b track k s =
     bindE (entry s k) (\<lambda>(a, c).
       let s1 = s\<lparr>pending := pending s + (if track then 1 else 0)\<rparr> in
       case telemetry (cdomainObject c) of
         None \<Rightarrow>
           Inr ((s1\<lparr>warnings := warnings s1 @ [warnNoRequest k]\<rparr>)
                  \<lparr>pending := pending s1 - (if track then 1 else 0)\<rparr>)
       | Some t \<Rightarrow>
           Inr (s1\<lparr>fetches := fetches s1 @
                  [\<lparr>target = a, trackPending = track, params = request s1,
                    batch = b, status = Outstanding\<rparr>]\<rparr>))"

text \<open>
  \<^verbatim>\<open>requestTelemetry(trackPending)\<close>: the number of the \<^verbatim>\<open>$q.all\<close> promise it
  returns, and the new state.
\<close>

definition requestTelemetry :: "bool \<Rightarrow> controller \<Rightarrow> error + (nat \<times> controller)" where
  "requestTelemetry track s =
     (let b = batches s in
      bindE (foldE (requestTelemetryForId b track) (ids s) (s\<lparr>batches := b + 1\<rparr>))
        (\<lambda>s'. Inr (b, s')))"

text \<open>
  What the promise of \<^verbatim>\<open>promiseRelevantDomainObjects(domainObject)\<close> resolves to,
  given the result of the delegation lookup (\<open>None\<close> for a falsy result).
\<close>

definition relevantDomainObjects :: "domainObject \<Rightarrow> domainObject list option \<Rightarrow> domainObject list" where
  "relevantDomainObjects d result =
     (let head = (case telemetry d of Some t \<Rightarrow> [d] | None \<Rightarrow> []);
          tail = (case result of Some ds \<Rightarrow> ds | None \<Rightarrow> [])
      in head @ tail)"

definition buildResponseContainer :: "domainObject \<Rightarrow> controller \<Rightarrow> controller" where
  "buildResponseContainer d s =
     (case telemetry d of
        Some m \<Rightarrow>
          s\<lparr>response := (response s)(getId d \<mapsto> length (heap s)),
            heap := heap s @
              [\<lparr>cname = name (getModel d), cdomainObject = d, metadata = m,
                cpending = 0, data = JObj []\<rparr>]\<rparr>
      | None \<Rightarrow>
          (s\<lparr>warnings := warnings s @ [warnNoContainer (getId d)]\<rparr>)
           \<lparr>response := (response s)(getId d \<mapsto> length (heap s)),
            heap := heap s @
              [\<lparr>cname = name (getModel d), cdomainObject = d, metadata = JObj [],
                cpending = 0, data = JObj []\<rparr>]\<rparr>)"

definition buildResponseContainers :: "domainObject list \<Rightarrow> controller \<Rightarrow> error + controller" where
  "buildResponseContainers ds s =
     (let s1 = fold buildResponseContainer ds s;
          s2 = s1\<lparr>ids := map getId ds\<rparr>
      in bindE (mapE (\<lambda>k. bindE (entry s2 k) (\<lambda>(a, c). Inr (metadata c))) (ids s2))
           (\<lambda>ms.
              let s3 = s2\<lparr>metadatas := ms\<rparr> in
              if truthy (request s3)
              then bindE (requestTelemetry True s3) (\<lambda>(b, s4). Inr s4)
              else Inr s3))"

definition startTimeout :: "controller \<Rightarrow> controller" where
  "startTimeout s =
     (if \<not> refreshing s \<and> interval s \<noteq> JUndefined
      then s\<lparr>refreshing := True, timers := timers s @ [Poll (interval s)]\<rparr>
      else s)"

text \<open>The callback \<^verbatim>\<open>startTimeout\<close> hands to \<^verbatim>\<open>$timeout\<close>.\<close>

definition pollCallback :: "controller \<Rightarrow> error + controller" where
  "pollCallback s =
     bindE (if truthy (request s)
            then bindE (requestTelemetry False s) (\<lambda>(b, s1). Inr s1)
            else Inr s)
       (\<lambda>s1. Inr (startTimeout (s1\<lparr>refreshing := False\<rparr>)))"

text \<open>\<^verbatim>\<open>storeData(data)\<close> in the closure of the telemetry promise \<open>f\<close>.\<close>

definition storeData :: "fetch \<Rightarrow> jsval \<Rightarrow> controller \<Rightarrow> controller" where
  "storeData f v s =
     (let s1 = s\<lparr>pending := pending s - (if trackPending f then 1 else 0)\<rparr>;
          s2 = s1\<lparr>heap := (heap s1)[target f := (heap s1 ! target f)\<lparr>data := v\<rparr>]\<rparr>
      in doBroadcast s2)"

section \<open>TelemetryController: construction and the public functions\<close>

definition selfInitial :: controller where
  "selfInitial =
     \<lparr>ids = [], response = Map.empty, request = JObj [], pending = 0, metadatas = [],
      interval = JNum 1000, refreshing = False, broadcasting = False,
      heap = [], timers = [], fetches = [], batches = 0, lookups = [],
      broadcasts = 0, warnings = []\<rparr>"

text \<open>The constructor registers the watch and calls \<^verbatim>\<open>startTimeout()\<close>.\<close>

definition TelemetryController :: controller where
  "TelemetryController = startTimeout selfInitial"

definition requestData :: "jsval \<Rightarrow> controller \<Rightarrow> error + (nat \<times> controller)" where
  "requestData r s = requestTelemetry True (s\<lparr>request := orEmptyObject r\<rparr>)"

definition setRefreshInterval :: "jsval \<Rightarrow> controller \<Rightarrow> controller" where
  "setRefreshInterval durationMillis s = startTimeout (s\<lparr>interval := durationMillis\<rparr>)"

text \<open>
  The state of the promise \<^verbatim>\<open>$q.all\<close> returned for batch \<open>b\<close>, as AngularJS
  documents it: rejected as soon as one member is rejected, resolved when every member
  is resolved.
\<close>

datatype signal = SignalPending | SignalResolved | SignalRejected

definition members :: "controller \<Rightarrow> nat \<Rightarrow> fetch list" where
  "members s b = filter (\<lambda>f. batch f = b) (fetches s)"

definition combined :: "controller \<Rightarrow> nat \<Rightarrow> signal" where
  "combined s b =
     (if \<exists>f \<in> set (members s b). status f = Rejected then SignalRejected
      else if \<forall>f \<in> set (members s b). status f = Fulfilled then SignalResolved
      else SignalPending)"

section \<open>TelemetryController: what the scheduler and the callers can do\<close>

text \<open>
  One turn of the single JavaScript thread: the watch on the represented object
  fires, a delegation lookup resolves or fails, a telemetry promise resolves or is
  rejected, a \<^verbatim>\<open>$timeout\<close> callback runs, or a caller uses the public functions.
  An index that names nothing outstanding leaves the state as it is.
\<close>

datatype event =
    Watch "domainObject option"
  | Delegated nat "domainObject list option"
  | DelegationFailed nat
  | Fulfil nat jsval
  | Reject nat
  | Timeout nat
  | RequestData jsval
  | SetRefreshInterval jsval

fun runTask :: "task \<Rightarrow> controller \<Rightarrow> error + controller" where
  "runTask Broadcast s = Inr (broadcastCallback s)"
| "runTask (Poll d) s = pollCallback s"

fun step :: "event \<Rightarrow> controller \<Rightarrow> error + controller" where
  "step (Watch d) s = Inr (s\<lparr>lookups := lookups s @ [d]\<rparr>)"
| "step (Delegated i result) s =
     (if i < length (lookups s)
      then buildResponseContainers
             (case lookups s ! i of
                None \<Rightarrow> []
              | Some d \<Rightarrow> relevantDomainObjects d result)
             (s\<lparr>lookups := removeAt i (lookups s)\<rparr>)
      else Inr s)"
| "step (DelegationFailed i) s =
     (if i < length (lookups s) \<and> lookups s ! i \<noteq> None
      then Inr (s\<lparr>lookups := removeAt i (lookups s)\<rparr>)
      else Inr s)"
| "step (Fulfil i v) s =
     (if i < length (fetches s) \<and> status (fetches s ! i) = Outstanding
      then Inr (storeData (fetches s ! i) v
                  (s\<lparr>fetches := (fetches s)[i := (fetches s ! i)\<lparr>status := Fulfilled\<rparr>]\<rparr>))
      else Inr s)"
| "step (Reject i) s =
     (if i < length (fetches s) \<and> status (fetches s ! i) = Outstanding
      then Inr (s\<lparr>fetches := (fetches s)[i := (fetches s ! i)\<lparr>status := Rejected\<rparr>]\<rparr>)
      else Inr s)"
| "step (Timeout i) s =
     (if i < length (timers s)
      then runTask (timers s ! i) (s\<lparr>timers := removeAt i (timers s)\<rparr>)
      else Inr s)"
| "step (RequestData r) s = bindE (requestData r s) (\<lambda>(b, s'). Inr s')"
| "step (SetRefreshInterval d) s = Inr (setRefreshInterval d s)"

fun run :: "event list \<Rightarrow> controller \<Rightarrow> error + controller" where
  "run [] s = Inr s"
| "run (e # es) s = bindE (step e s) (run es)"

section \<open>ExportAsJSONAction\<close>

text \<open>
  The tree is a plain JavaScript object used as a dictionary from identifier to model.
  Its own properties are an association list, where an assignment to a key that is
  present replaces its value and a new key is added at the end. (JavaScript enumerates
  keys that look like array indices first; the statements below read the tree by key
  and do not depend on the order.) One key is no property of its own: \<^verbatim>\<open>__proto__\<close>
  is the accessor that plain objects inherit, and assigning a model, which is an
  object, to it makes the model the prototype of the tree and creates no own property.
  So a tree is its own properties together with its prototype, \<open>None\<close> while that is
  the initial one. The exported document is \<^verbatim>\<open>{'openmct': tree}\<close>.
\<close>

record tree =
  entries :: "(string \<times> model) list"
  prototype :: "model option"

text \<open>\<^verbatim>\<open>{}\<close> and \<^verbatim>\<open>tree[key] = value\<close>.\<close>

definition emptyTree :: tree where
  "emptyTree = \<lparr>entries = [], prototype = None\<rparr>"

definition put :: "string \<Rightarrow> model \<Rightarrow> tree \<Rightarrow> tree" where
  "put key v T =
     (if key = ''__proto__'' then T\<lparr>prototype := Some v\<rparr>
      else T\<lparr>entries := AList.update key v (entries T)\<rparr>)"

datatype document = Openmct tree

text \<open>
  The action object with the world around it: the trees that \<^verbatim>\<open>contructJSON\<close> has
  allocated, each with the root object its callback closes over; the composition
  promises that have not resolved yet, each with the tree and the domain object of
  the \<^verbatim>\<open>write\<close> call that waits for it; and the calls that the export service has
  received, document and file name.
\<close>

record action =
  contextDomainObject :: domainObject
  calls :: int
  trees :: "(tree \<times> domainObject) list"
  composing :: "(nat \<times> domainObject) list"
  exported :: "(document \<times> string) list"

definition ExportAsJSONAction :: "domainObject \<Rightarrow> action" where
  "ExportAsJSONAction d =
     \<lparr>contextDomainObject = d, calls = 0, trees = [], composing = [], exported = []\<rparr>"

definition wrap :: "tree \<Rightarrow> document" where
  "wrap tree = Openmct tree"

text \<open>The callback \<^verbatim>\<open>contructJSON\<close> passes to \<^verbatim>\<open>write\<close>, for the tree at \<open>t\<close>.\<close>

definition callback :: "nat \<Rightarrow> document \<Rightarrow> action \<Rightarrow> action" where
  "callback t result s =
     s\<lparr>exported := exported s @ [(result, name (getModel (snd (trees s ! t))) @ ''.json'')]\<rparr>"

text \<open>
  \<^verbatim>\<open>this.calls--; if (this.calls === 0) { callback(this.wrap(tree)); }\<close>, the end of
  both branches of \<^verbatim>\<open>write\<close>.
\<close>

definition writeEnd :: "nat \<Rightarrow> action \<Rightarrow> action" where
  "writeEnd t s =
     (let s1 = s\<lparr>calls := calls s - 1\<rparr>
      in if calls s1 = 0 then callback t (wrap (fst (trees s1 ! t))) s1 else s1)"

text \<open>
  \<^verbatim>\<open>write(tree, domainObject, callback)\<close> up to the point where it returns: with a
  composition capability the continuation is registered on the promise. (The name
  \<open>write\<close> is reserved in Isabelle.)
\<close>

definition writeNode :: "nat \<Rightarrow> domainObject \<Rightarrow> action \<Rightarrow> action" where
  "writeNode t d s =
     (let s1 = s\<lparr>calls := calls s + 1\<rparr>
      in case composition d of
           Some children \<Rightarrow> s1\<lparr>composing := composing s1 @ [(t, d)]\<rparr>
         | None \<Rightarrow> writeEnd t s1)"

text \<open>\<^verbatim>\<open>tree[child.getId()] = child.getModel()\<close> on the tree at \<open>t\<close>.\<close>

definition assign :: "nat \<Rightarrow> domainObject \<Rightarrow> action \<Rightarrow> action" where
  "assign t child s =
     s\<lparr>trees := (trees s)[t :=
         (put (getId child) (getModel child) (fst (trees s ! t)), snd (trees s ! t))]\<rparr>"

text \<open>The continuation of \<^verbatim>\<open>write\<close>, run when the composition promise resolves.\<close>

definition composed :: "nat \<Rightarrow> domainObject list \<Rightarrow> action \<Rightarrow> action" where
  "composed t children s =
     writeEnd t (fold (\<lambda>child s'. writeNode t child (assign t child s')) children s)"

text \<open>
  \<^verbatim>\<open>contructJSON(rootObject)\<close>: a new tree, the entry of the root, and the first call of
  \<^verbatim>\<open>write\<close>.
\<close>

definition contructJSON :: "domainObject \<Rightarrow> action \<Rightarrow> action" where
  "contructJSON rootObject s =
     writeNode (length (trees s)) rootObject
       (s\<lparr>trees := trees s @
          [(put (getId rootObject) (getModel rootObject) emptyTree, rootObject)]\<rparr>)"

definition perform :: "action \<Rightarrow> action" where
  "perform s = contructJSON (contextDomainObject s) s"

text \<open>
  The scheduler resolves the \<open>i\<close>-th outstanding composition promise with the
  children of its domain object. A composition promise that never settles simply stays
  outstanding.
\<close>

definition resolve :: "nat \<Rightarrow> action \<Rightarrow> action" where
  "resolve i s =
     (if i < length (composing s)
      then case composing s ! i of
             (t, d) \<Rightarrow>
               composed t (case composition d of Some children \<Rightarrow> children | None \<Rightarrow> [])
                 (s\<lparr>composing := removeAt i (composing s)\<rparr>)
      else s)"

text \<open>
  The \<open>i\<close>-th outstanding composition promise is rejected. \<^verbatim>\<open>write\<close> has attached its
  continuation with \<^verbatim>\<open>.then(...)\<close> and no rejection handler, so nothing of the action
  runs: the promise is no longer outstanding, and \<^verbatim>\<open>this.calls\<close> stays as it is.
\<close>

definition rejected :: "nat \<Rightarrow> action \<Rightarrow> action" where
  "rejected i s =
     (if i < length (composing s) then s\<lparr>composing := removeAt i (composing s)\<rparr> else s)"

text \<open>
  What can happen to an action object: a caller calls \<^verbatim>\<open>perform()\<close>, or the scheduler
  settles an outstanding composition promise.
\<close>

datatype turn = Perform | Resolve nat | Fail nat

fun act :: "turn \<Rightarrow> action \<Rightarrow> action" where
  "act Perform s = perform s"
| "act (Resolve i) s = resolve i s"
| "act (Fail i) s = rejected i s"

section \<open>Notions used in the statements\<close>

text \<open>
  Whether the entry of an identifier holds a domain object with a telemetry
  capability, and the promises \<^verbatim>\<open>requestTelemetry\<close> adds for a list of identifiers:
  one for each identifier with the capability, in the order of the list.
\<close>

definition hasTelemetry :: "controller \<Rightarrow> string \<Rightarrow> bool" where
  "hasTelemetry s k = (telemetry (cdomainObject (heap s ! the (response s k))) \<noteq> None)"

definition issued :: "nat \<Rightarrow> bool \<Rightarrow> controller \<Rightarrow> string list \<Rightarrow> fetch list" where
  "issued b track s ks =
     map (\<lambda>k. \<lparr>target = the (response s k), trackPending = track, params = request s,
               batch = b, status = Outstanding\<rparr>)
       (filter (hasTelemetry s) ks)"

text \<open>The objects a delegation lookup resolves to.\<close>

definition resolved :: "controller \<Rightarrow> nat \<Rightarrow> domainObject list option \<Rightarrow> domainObject list" where
  "resolved s i result =
     (case lookups s ! i of None \<Rightarrow> [] | Some d \<Rightarrow> relevantDomainObjects d result)"

text \<open>The last object of a list that has a given identifier.\<close>

definition lastWith :: "string \<Rightarrow> domainObject list \<Rightarrow> domainObject" where
  "lastWith k ds = last (filter (\<lambda>d. getId d = k) ds)"

text \<open>Kinds of turns.\<close>

fun isRequestData :: "event \<Rightarrow> bool" where
  "isRequestData (RequestData r) = True"
| "isRequestData e = False"

fun isSetRefreshInterval :: "event \<Rightarrow> bool" where
  "isSetRefreshInterval (SetRefreshInterval d) = True"
| "isSetRefreshInterval e = False"

fun isSettlement :: "event \<Rightarrow> bool" where
  "isSettlement (Fulfil i v) = True"
| "isSettlement (Reject i) = True"
| "isSettlement e = False"

definition isPoll :: "task \<Rightarrow> bool" where
  "isPoll t = (case t of Poll d \<Rightarrow> True | Broadcast \<Rightarrow> False)"

text \<open>The turn runs the callback of a waiting poll timer.\<close>

definition firesPoll :: "event \<Rightarrow> controller \<Rightarrow> bool" where
  "firesPoll e s =
     (case e of Timeout j \<Rightarrow> j < length (timers s) \<and> isPoll (timers s ! j) | _ \<Rightarrow> False)"

text \<open>
  A tracked promise that is outstanding, and a list without its positions from \<open>n\<close>
  up to \<open>m\<close>.
\<close>

definition awaited :: "fetch \<Rightarrow> bool" where
  "awaited f \<longleftrightarrow> trackPending f \<and> status f = Outstanding"

definition outside :: "nat \<Rightarrow> nat \<Rightarrow> 'a list \<Rightarrow> 'a list" where
  "outside n m xs = take n xs @ drop m xs"

text \<open>
  For the export: the nodes of the tree below a domain object, itself included; the
  number of them that have a composition capability, which is the number of promises
  a walk waits for; and the schedules that resolve, one after the other, a promise
  that is outstanding at that moment.
\<close>

fun subtree :: "domainObject \<Rightarrow> domainObject list" where
  "subtree (DomainObject i m t None) = [DomainObject i m t None]"
| "subtree (DomainObject i m t (Some cs)) =
     DomainObject i m t (Some cs) # concat (map subtree cs)"

definition childrenOf :: "domainObject \<Rightarrow> domainObject list" where
  "childrenOf d = (case composition d of Some cs \<Rightarrow> cs | None \<Rightarrow> [])"

definition work :: "domainObject \<Rightarrow> nat" where
  "work d = length (filter (\<lambda>n. composition n \<noteq> None) (subtree d))"

fun valid :: "nat list \<Rightarrow> action \<Rightarrow> bool" where
  "valid [] s = True"
| "valid (i # js) s = (i < length (composing s) \<and> valid js (resolve i s))"

section \<open>Example objects\<close>

definition sensorA :: domainObject where
  "sensorA = DomainObject ''a'' (Model ''A'' []) (Some (JNum 1)) None"

definition sensorB :: domainObject where
  "sensorB = DomainObject ''b'' (Model ''B'' []) (Some (JNum 2)) None"

definition sensorNoId :: domainObject where
  "sensorNoId = DomainObject [] (Model ''N'' []) (Some (JNum 3)) None"

definition sensorProto :: domainObject where
  "sensorProto = DomainObject ''__proto__'' (Model ''P'' []) (Some (JNum 4)) None"

definition leafA1 :: domainObject where
  "leafA1 = DomainObject ''a1'' (Model ''A1'' []) None None"

definition folderA :: domainObject where
  "folderA = DomainObject ''a'' (Model ''A'' []) None (Some [leafA1])"

definition leafB :: domainObject where
  "leafB = DomainObject ''b'' (Model ''B'' []) None None"

definition leafProto :: domainObject where
  "leafProto = DomainObject ''__proto__'' (Model ''P'' []) None None"

definition folderP :: domainObject where
  "folderP = DomainObject ''p'' (Model ''Folder'' []) None (Some [leafProto])"

definition folderRoot :: domainObject where
  "folderRoot = DomainObject ''r'' (Model ''Root'' []) None (Some [folderA, leafB])"

section \<open>Notions used in the proofs\<close>

text \<open>
  The state after \<^verbatim>\<open>requestTelemetry\<close>, after the loop over
  \<^verbatim>\<open>buildResponseContainer\<close> and after \<^verbatim>\<open>buildResponseContainers\<close> up to its
  request, written without the error branches, which a well-formed state does not take.
\<close>

definition requested :: "nat \<Rightarrow> bool \<Rightarrow> string list \<Rightarrow> controller \<Rightarrow> controller" where
  "requested b track ks s =
     s\<lparr>pending := pending s + (if track then int (length (issued b track s ks)) else 0),
       fetches := fetches s @ issued b track s ks,
       warnings := warnings s @ map warnNoRequest (filter (\<lambda>k. \<not> hasTelemetry s k) ks)\<rparr>"

definition hasEntries :: "controller \<Rightarrow> string list \<Rightarrow> bool" where
  "hasEntries s ks = (\<forall>k \<in> set ks. \<exists>a. response s k = Some a \<and> a < length (heap s))"

definition containerFor :: "domainObject \<Rightarrow> container" where
  "containerFor d =
     \<lparr>cname = name (getModel d), cdomainObject = d,
      metadata = (case telemetry d of Some m \<Rightarrow> m | None \<Rightarrow> JObj []),
      cpending = 0, data = JObj []\<rparr>"

fun bound :: "(string \<rightharpoonup> nat) \<Rightarrow> nat \<Rightarrow> domainObject list \<Rightarrow> (string \<rightharpoonup> nat)" where
  "bound r n [] = r"
| "bound r n (d # ds) = bound (r(getId d \<mapsto> n)) (Suc n) ds"

definition built :: "domainObject list \<Rightarrow> controller \<Rightarrow> controller" where
  "built ds s =
     s\<lparr>response := bound (response s) (length (heap s)) ds,
       heap := heap s @ map containerFor ds,
       warnings := warnings s @
         map (\<lambda>d. warnNoContainer (getId d)) (filter (\<lambda>d. telemetry d = None) ds)\<rparr>"

definition rebuilt :: "domainObject list \<Rightarrow> controller \<Rightarrow> controller" where
  "rebuilt ds s =
     (built ds s)
       \<lparr>ids := map getId ds,
        metadatas :=
          map (\<lambda>d. metadata (heap (built ds s) ! the (response (built ds s) (getId d)))) ds\<rparr>"

text \<open>
  What holds in every state the controller can reach: every tracked identifier has an
  entry, every entry holds the domain object of its identifier, and the metadata list
  is that of the entries; a broadcast callback waits exactly when the flag is set, and
  a poll callback exactly when \<^verbatim>\<open>self.refreshing\<close> is; the pending counter is the
  number of tracked promises that have not been fulfilled; the promises of a
  \<^verbatim>\<open>$q.all\<close> still to be created do not exist yet; the request is truthy.
\<close>

definition wf :: "controller \<Rightarrow> bool" where
  "wf s \<longleftrightarrow>
     (\<forall>k \<in> set (ids s). response s k \<noteq> None) \<and>
     (\<forall>k a. response s k = Some a \<longrightarrow>
        a < length (heap s) \<and> getId (cdomainObject (heap s ! a)) = k) \<and>
     metadatas s = map (\<lambda>k. metadata (heap s ! the (response s k))) (ids s)"

definition tinv :: "controller \<Rightarrow> bool" where
  "tinv s \<longleftrightarrow>
     length (filter (\<lambda>t. t = Broadcast) (timers s)) = (if broadcasting s then 1 else 0) \<and>
     length (filter isPoll (timers s)) = (if refreshing s then 1 else 0)"

definition owed :: "fetch \<Rightarrow> bool" where
  "owed f \<longleftrightarrow> trackPending f \<and> status f \<noteq> Fulfilled"

definition pinv :: "controller \<Rightarrow> bool" where
  "pinv s \<longleftrightarrow> pending s = int (length (filter owed (fetches s)))"

definition binv :: "controller \<Rightarrow> bool" where
  "binv s \<longleftrightarrow> (\<forall>f \<in> set (fetches s). batch f < batches s)"

definition consistent :: "controller \<Rightarrow> bool" where
  "consistent s \<longleftrightarrow> wf s \<and> tinv s \<and> pinv s \<and> binv s \<and> truthy (request s)"

text \<open>
  How a later state relates to an earlier one: the promises of the earlier state keep
  their place and everything but their status, a promise that has settled keeps its
  status, and the promises added since belong to later \<^verbatim>\<open>$q.all\<close> calls.
\<close>

definition grown :: "controller \<Rightarrow> controller \<Rightarrow> bool" where
  "grown s t \<longleftrightarrow>
     length (fetches s) \<le> length (fetches t) \<and> batches s \<le> batches t \<and>
     (\<forall>j < length (fetches s).
        fetches t ! j = (fetches s ! j)\<lparr>status := status (fetches t ! j)\<rparr> \<and>
        (status (fetches s ! j) \<noteq> Outstanding \<longrightarrow> status (fetches t ! j) = status (fetches s ! j))) \<and>
     (\<forall>j. length (fetches s) \<le> j \<and> j < length (fetches t) \<longrightarrow> batches s \<le> batch (fetches t ! j))"

text \<open>A turn without its error branches: what \<open>step\<close> returns in a well-formed state.\<close>

fun effect :: "event \<Rightarrow> controller \<Rightarrow> controller" where
  "effect (Watch d) s = s\<lparr>lookups := lookups s @ [d]\<rparr>"
| "effect (Delegated i result) s =
     (if i < length (lookups s)
      then let s1 = rebuilt (resolved s i result) (s\<lparr>lookups := removeAt i (lookups s)\<rparr>)
           in if truthy (request s)
              then requested (batches s) True (ids s1) (s1\<lparr>batches := batches s + 1\<rparr>)
              else s1
      else s)"
| "effect (DelegationFailed i) s =
     (if i < length (lookups s) \<and> lookups s ! i \<noteq> None
      then s\<lparr>lookups := removeAt i (lookups s)\<rparr>
      else s)"
| "effect (Fulfil i v) s =
     (if i < length (fetches s) \<and> status (fetches s ! i) = Outstanding
      then storeData (fetches s ! i) v
             (s\<lparr>fetches := (fetches s)[i := (fetches s ! i)\<lparr>status := Fulfilled\<rparr>]\<rparr>)
      else s)"
| "effect (Reject i) s =
     (if i < length (fetches s) \<and> status (fetches s ! i) = Outstanding
      then s\<lparr>fetches := (fetches s)[i := (fetches s ! i)\<lparr>status := Rejected\<rparr>]\<rparr>
      else s)"
| "effect (Timeout i) s =
     (if i < length (timers s)
      then let s1 = s\<lparr>timers := removeAt i (timers s)\<rparr> in
           case timers s ! i of
             Broadcast \<Rightarrow> broadcastCallback s1
           | Poll d \<Rightarrow>
               startTimeout
                 ((if truthy (request s)
                   then requested (batches s) False (ids s) (s1\<lparr>batches := batches s + 1\<rparr>)
                   else s1)\<lparr>refreshing := False\<rparr>)
      else s)"
| "effect (RequestData r) s =
     requested (batches s) True (ids s)
       (s\<lparr>request := orEmptyObject r, batches := batches s + 1\<rparr>)"
| "effect (SetRefreshInterval d) s = setRefreshInterval d s"

text \<open>
  The controller as constructed, untouched by \<^verbatim>\<open>requestData\<close> and
  \<^verbatim>\<open>setRefreshInterval\<close>; and the poll loop at rest.
\<close>

definition defaults :: "controller \<Rightarrow> bool" where
  "defaults s \<longleftrightarrow>
     request s = JObj [] \<and> interval s = JNum 1000 \<and> refreshing s \<and>
     (\<forall>t \<in> set (timers s). isPoll t \<longrightarrow> t = Poll (JNum 1000))"

definition halted :: "controller \<Rightarrow> bool" where
  "halted s \<longleftrightarrow> \<not> refreshing s \<and> interval s = JUndefined \<and> filter isPoll (timers s) = []"

text \<open>
  The continuation of \<^verbatim>\<open>write\<close> up to its last decrement, written without the test
  for zero, which cannot succeed while the continuation itself is counted.
\<close>

definition entered :: "nat \<Rightarrow> domainObject list \<Rightarrow> action \<Rightarrow> action" where
  "entered t cs s =
     s\<lparr>calls := calls s + int (length (filter (\<lambda>c. composition c \<noteq> None) cs)),
       trees := (trees s)[t :=
         (fold (\<lambda>c. put (getId c) (getModel c)) cs (fst (trees s ! t)),
          snd (trees s ! t))],
       composing := composing s @ map (Pair t) (filter (\<lambda>c. composition c \<noteq> None) cs)\<rparr>"

text \<open>
  By how much \<^verbatim>\<open>this.calls\<close> exceeds the number of outstanding composition promises:
  the calls of \<^verbatim>\<open>write\<close> whose promise was rejected.
\<close>

definition slack :: "action \<Rightarrow> int" where
  "slack s = calls s - int (length (composing s))"

definition remaining :: "action \<Rightarrow> nat" where
  "remaining s = sum_list (map (\<lambda>p. work (snd p)) (composing s))"

text \<open>
  What holds during the walk started by \<open>perform\<close> with the tree at \<open>t0\<close>, the root
  \<open>root\<close> and the earlier exports \<open>ex0\<close>: the counter is the number of outstanding
  promises, all of them belong to this walk and to nodes of the subtree, every node of
  the subtree whose identifier can be a key is in the tree or below a node whose
  promise is outstanding, the tree holds only models of nodes of the subtree, and the
  export has happened if and only if no promise is outstanding.
\<close>

definition walking :: "nat \<Rightarrow> domainObject \<Rightarrow> (document \<times> string) list \<Rightarrow> action \<Rightarrow> bool" where
  "walking t0 root ex0 s \<longleftrightarrow>
     calls s = int (length (composing s)) \<and>
     t0 < length (trees s) \<and> snd (trees s ! t0) = root \<and>
     (\<forall>p \<in> set (composing s).
        fst p = t0 \<and> composition (snd p) \<noteq> None \<and> set (subtree (snd p)) \<subseteq> set (subtree root)) \<and>
     (\<forall>n \<in> set (subtree root).
        getId n = ''__proto__'' \<or>
        map_of (entries (fst (trees s ! t0))) (getId n) \<noteq> None \<or>
        (\<exists>p \<in> set (composing s). \<exists>c \<in> set (childrenOf (snd p)). n \<in> set (subtree c))) \<and>
     (\<forall>k m. map_of (entries (fst (trees s ! t0))) k = Some m \<longrightarrow>
        k \<noteq> ''__proto__'' \<and> (\<exists>n \<in> set (subtree root). getId n = k \<and> getModel n = m)) \<and>
     (\<forall>m. prototype (fst (trees s ! t0)) = Some m \<longrightarrow>
        (\<exists>n \<in> set (subtree root). getId n = ''__proto__'' \<and> getModel n = m)) \<and>
     exported s = ex0 @
       (if composing s = []
        then [(wrap (fst (trees s ! t0)), name (getModel root) @ ''.json'')] else [])"

section \<open>Facts about getResponse\<close>

lemma mapE_Inr: "\<forall>x \<in> set xs. f x = Inr (g x) \<Longrightarrow> mapE f xs = Inr (map g xs)"
  by (induction xs) auto

lemma mapE_RangeError:
  "\<exists>x \<in> set xs. f x = Inl RangeError \<Longrightarrow>
   \<forall>x \<in> set xs. f x = Inl RangeError \<or> (\<exists>y. f x = Inr y) \<Longrightarrow>
   mapE f xs = Inl RangeError"
proof (induction xs)
  case Nil then show ?case by simp
next
  case (Cons x xs)
  show ?case
  proof (cases "f x")
    case (Inl e)
    with Cons.prems(2) show ?thesis by auto
  next
    case (Inr y)
    with Cons.prems have "\<exists>x \<in> set xs. f x = Inl RangeError" by auto
    moreover from Cons.prems have "\<forall>x \<in> set xs. f x = Inl RangeError \<or> (\<exists>y. f x = Inr y)" by auto
    ultimately have "mapE f xs = Inl RangeError" by (rule Cons.IH)
    with Inr show ?thesis by simp
  qed
qed

lemma argId_falsy: "\<not> truthy v \<Longrightarrow> argId (ArgVal v) = Inr v"
  by (cases v) auto

lemma getResponse_string:
  "k \<noteq> [] \<Longrightarrow> getResponse (Suc n) s (ArgVal (JStr k)) = Inr (dataOf s k)"
  by simp

lemma getResponse_object:
  "getId d \<noteq> [] \<Longrightarrow> getResponse (Suc n) s (ArgObj d) = Inr (dataOf s (getId d))"
  by simp

lemma getResponse_falsy:
  "\<not> truthy v \<Longrightarrow> getResponse (Suc n) s (ArgVal v) =
     bindE (mapE (\<lambda>k. getResponse n s (ArgVal (JStr k))) (ids s)) (\<lambda>vs. Inr (JArr vs))"
  by (simp add: argId_falsy del: argId.simps)

lemma getResponse_all:
  assumes "[] \<notin> set (ids s)" "\<not> truthy v"
  shows "getResponse (Suc (Suc n)) s (ArgVal v) = Inr (JArr (map (dataOf s) (ids s)))"
proof -
  have "\<forall>k \<in> set (ids s). getResponse (Suc n) s (ArgVal (JStr k)) = Inr (dataOf s k)"
    using assms(1) by auto
  then have "mapE (\<lambda>k. getResponse (Suc n) s (ArgVal (JStr k))) (ids s) = Inr (map (dataOf s) (ids s))"
    by (rule mapE_Inr)
  then show ?thesis using assms(2) by (simp add: getResponse_falsy del: getResponse.simps)
qed

lemma getResponse_overflow:
  "[] \<in> set (ids s) \<Longrightarrow> \<not> truthy v \<Longrightarrow> getResponse n s (ArgVal v) = Inl RangeError"
proof (induction n arbitrary: v)
  case 0 then show ?case by simp
next
  case (Suc n)
  have e: "getResponse n s (ArgVal (JStr [])) = Inl RangeError"
    using Suc.IH [of "JStr []"] Suc.prems(1) by simp
  have "\<forall>k \<in> set (ids s). getResponse n s (ArgVal (JStr k)) = Inl RangeError \<or>
          (\<exists>y. getResponse n s (ArgVal (JStr k)) = Inr y)"
  proof
    fix k assume "k \<in> set (ids s)"
    show "getResponse n s (ArgVal (JStr k)) = Inl RangeError \<or>
          (\<exists>y. getResponse n s (ArgVal (JStr k)) = Inr y)"
    proof (cases "k = []")
      case True with e show ?thesis by simp
    next
      case False then show ?thesis by (cases n) auto
    qed
  qed
  with e Suc.prems(1)
  have "mapE (\<lambda>k. getResponse n s (ArgVal (JStr k))) (ids s) = Inl RangeError"
    by (intro mapE_RangeError) auto
  then show ?case using Suc.prems(2) by (simp add: getResponse_falsy del: getResponse.simps)
qed

section \<open>The internal functions in a well-formed state\<close>

lemma requestTelemetryForId_entry:
  assumes "response s k = Some a" "a < length (heap s)"
  shows "requestTelemetryForId b track k s = Inr (requested b track [k] s)"
  using assms
  by (cases "telemetry (cdomainObject (heap s ! a))")
     (simp_all add: requestTelemetryForId_def entry_def requested_def issued_def hasTelemetry_def)

lemma requested_Nil: "requested b track [] s = s"
  by (simp add: requested_def issued_def)

lemma requested_fields:
  "ids (requested b track ks s) = ids s"
  "response (requested b track ks s) = response s"
  "request (requested b track ks s) = request s"
  "heap (requested b track ks s) = heap s"
  "metadatas (requested b track ks s) = metadatas s"
  "interval (requested b track ks s) = interval s"
  "refreshing (requested b track ks s) = refreshing s"
  "broadcasting (requested b track ks s) = broadcasting s"
  "timers (requested b track ks s) = timers s"
  "batches (requested b track ks s) = batches s"
  "lookups (requested b track ks s) = lookups s"
  "broadcasts (requested b track ks s) = broadcasts s"
  "fetches (requested b track ks s) = fetches s @ issued b track s ks"
  "pending (requested b track ks s) =
     pending s + (if track then int (length (issued b track s ks)) else 0)"
  by (simp_all add: requested_def)

lemma hasTelemetry_cong:
  "response s' = response s \<Longrightarrow> heap s' = heap s \<Longrightarrow> hasTelemetry s' = hasTelemetry s"
  by (rule ext) (simp add: hasTelemetry_def)

lemma issued_cong:
  "response s' = response s \<Longrightarrow> heap s' = heap s \<Longrightarrow> request s' = request s \<Longrightarrow>
   issued b track s' ks = issued b track s ks"
  using hasTelemetry_cong [of s' s] by (simp add: issued_def)

lemma issued_append:
  "issued b track s (ks @ ks') = issued b track s ks @ issued b track s ks'"
  by (simp add: issued_def)

lemma requested_Cons:
  "requested b track ks (requested b track [k] s) = requested b track (k # ks) s"
proof -
  let ?s1 = "requested b track [k] s"
  have h: "hasTelemetry ?s1 = hasTelemetry s"
    by (rule hasTelemetry_cong) (simp_all add: requested_fields)
  have i: "issued b track ?s1 ks = issued b track s ks"
    by (rule issued_cong) (simp_all add: requested_fields)
  have c: "issued b track s (k # ks) = issued b track s [k] @ issued b track s ks"
    using issued_append [of b track s "[k]" ks] by simp
  show ?thesis
    unfolding requested_def [of b track ks ?s1] i h
    unfolding requested_def c
    by simp
qed

lemma foldE_requested:
  "hasEntries s ks \<Longrightarrow>
   foldE (requestTelemetryForId b track) ks s = Inr (requested b track ks s)"
proof (induction ks arbitrary: s)
  case Nil
  show ?case by (simp add: requested_Nil)
next
  case (Cons k ks)
  from Cons.prems obtain a where a: "response s k = Some a" "a < length (heap s)"
    by (auto simp: hasEntries_def)
  have "hasEntries (requested b track [k] s) ks"
    using Cons.prems by (simp add: hasEntries_def requested_fields)
  then have "foldE (requestTelemetryForId b track) ks (requested b track [k] s)
             = Inr (requested b track ks (requested b track [k] s))"
    by (rule Cons.IH)
  then show ?case
    by (simp add: requestTelemetryForId_entry [OF a] requested_Cons)
qed

lemma requestTelemetry_requested:
  "hasEntries s (ids s) \<Longrightarrow>
   requestTelemetry track s =
     Inr (batches s, requested (batches s) track (ids s) (s\<lparr>batches := batches s + 1\<rparr>))"
  by (simp add: requestTelemetry_def Let_def foldE_requested hasEntries_def)

lemma buildResponseContainer_built: "buildResponseContainer d s = built [d] s"
  by (cases "telemetry d") (simp_all add: buildResponseContainer_def built_def containerFor_def)

lemma built_Cons: "built ds (built [d] s) = built (d # ds) s"
  by (simp add: built_def)

lemma fold_built: "fold buildResponseContainer ds s = built ds s"
proof (induction ds arbitrary: s)
  case Nil
  show ?case by (simp add: built_def)
next
  case (Cons d ds)
  have "fold buildResponseContainer (d # ds) s = fold buildResponseContainer ds (built [d] s)"
    by (simp add: buildResponseContainer_built)
  also have "\<dots> = built ds (built [d] s)" by (rule Cons.IH)
  finally show ?case by (simp only: built_Cons)
qed

lemma bound_range:
  "bound r n ds k = Some a \<Longrightarrow>
   r k = Some a \<or> (n \<le> a \<and> a < n + length ds \<and> getId (ds ! (a - n)) = k)"
proof (induction ds arbitrary: r n)
  case Nil
  then show ?case by simp
next
  case (Cons d ds)
  from Cons.prems have "bound (r(getId d \<mapsto> n)) (Suc n) ds k = Some a" by simp
  from Cons.IH [OF this]
  consider "(r(getId d \<mapsto> n)) k = Some a"
    | "Suc n \<le> a" "a < Suc n + length ds" "getId (ds ! (a - Suc n)) = k"
    by blast
  then show ?case
  proof cases
    case 1
    then show ?thesis by (cases "k = getId d") auto
  next
    case 2
    then have "a - n = Suc (a - Suc n)" by arith
    then have "(d # ds) ! (a - n) = ds ! (a - Suc n)" by simp
    with 2 show ?thesis by simp
  qed
qed

lemma bound_defined:
  "r k \<noteq> None \<or> k \<in> getId ` set ds \<Longrightarrow> bound r n ds k \<noteq> None"
  by (induction ds arbitrary: r n) auto

lemma mapE_entry:
  "hasEntries s ks \<Longrightarrow>
   mapE (\<lambda>k. bindE (entry s k) (\<lambda>(a, c). Inr (g c))) ks =
     Inr (map (\<lambda>k. g (heap s ! the (response s k))) ks)"
  by (rule mapE_Inr) (auto simp: hasEntries_def entry_def)

lemma wf_hasEntries: "wf s \<Longrightarrow> hasEntries s (ids s)"
  by (auto simp: wf_def hasEntries_def)

lemma wf_cong:
  "ids s' = ids s \<Longrightarrow> response s' = response s \<Longrightarrow> heap s' = heap s \<Longrightarrow>
   metadatas s' = metadatas s \<Longrightarrow> wf s' = wf s"
  by (simp add: wf_def)

lemma wf_rebuilt:
  assumes "wf s"
  shows "wf (rebuilt ds s)"
proof -
  let ?t = "rebuilt ds s"
  have r: "response ?t = bound (response s) (length (heap s)) ds"
    and h: "heap ?t = heap s @ map containerFor ds"
    and i: "ids ?t = map getId ds"
    by (simp_all add: rebuilt_def built_def)
  have 1: "\<forall>k \<in> set (ids ?t). response ?t k \<noteq> None"
  proof
    fix k assume "k \<in> set (ids ?t)"
    then have "k \<in> getId ` set ds" by (simp add: i)
    then have "bound (response s) (length (heap s)) ds k \<noteq> None"
      by (intro bound_defined) simp
    then show "response ?t k \<noteq> None" unfolding r .
  qed
  have 2: "a < length (heap ?t) \<and> getId (cdomainObject (heap ?t ! a)) = k"
    if "response ?t k = Some a" for k a
  proof -
    from that have "bound (response s) (length (heap s)) ds k = Some a" by (simp only: r)
    from bound_range [OF this]
    consider "response s k = Some a"
      | "length (heap s) \<le> a" "a < length (heap s) + length ds"
        "getId (ds ! (a - length (heap s))) = k"
      by blast
    then show ?thesis
    proof cases
      case 1
      with assms have "a < length (heap s)" "getId (cdomainObject (heap s ! a)) = k"
        by (auto simp: wf_def)
      then show ?thesis by (simp add: h nth_append)
    next
      case 2
      then show ?thesis by (simp add: h nth_append containerFor_def)
    qed
  qed
  have 3: "metadatas ?t = map (\<lambda>k. metadata (heap ?t ! the (response ?t k))) (ids ?t)"
    by (simp add: rebuilt_def comp_def)
  from 1 2 3 show ?thesis unfolding wf_def by blast
qed

lemma buildResponseContainers_rebuilt:
  assumes "wf s"
  shows "buildResponseContainers ds s =
    (if truthy (request s)
     then Inr (requested (batches s) True (map getId ds) ((rebuilt ds s)\<lparr>batches := batches s + 1\<rparr>))
     else Inr (rebuilt ds s))"
proof -
  let ?s2 = "(built ds s)\<lparr>ids := map getId ds\<rparr>"
  have w: "wf (rebuilt ds s)" using assms by (rule wf_rebuilt)
  have e: "hasEntries ?s2 (ids ?s2)"
    using wf_hasEntries [OF w] by (simp add: hasEntries_def rebuilt_def)
  have m: "mapE (\<lambda>k. bindE (entry ?s2 k) (\<lambda>(a, c). Inr (metadata c))) (ids ?s2) =
        Inr (map (\<lambda>k. metadata (heap ?s2 ! the (response ?s2 k))) (ids ?s2))"
    using e by (rule mapE_entry)
  have s3: "?s2\<lparr>metadatas := map (\<lambda>k. metadata (heap ?s2 ! the (response ?s2 k))) (ids ?s2)\<rparr>
        = rebuilt ds s"
    by (simp add: rebuilt_def comp_def)
  have q: "request (rebuilt ds s) = request s" "batches (rebuilt ds s) = batches s"
    "ids (rebuilt ds s) = map getId ds"
    by (simp_all add: rebuilt_def built_def)
  have t: "requestTelemetry True (rebuilt ds s) =
      Inr (batches s, requested (batches s) True (map getId ds) ((rebuilt ds s)\<lparr>batches := batches s + 1\<rparr>))"
    using requestTelemetry_requested [OF wf_hasEntries [OF w], of True] by (simp add: q)
  show ?thesis
    unfolding buildResponseContainers_def fold_built Let_def m bindE.simps s3
    by (simp add: q t)
qed

section \<open>What every turn preserves\<close>

lemma length_filter_removeAt:
  assumes "i < length xs"
  shows "length (filter P (removeAt i xs)) = length (filter P xs) - (if P (xs ! i) then 1 else 0)"
proof -
  have "filter P xs = filter P (take i xs @ xs ! i # drop (Suc i) xs)"
    using assms by (simp only: id_take_nth_drop [symmetric])
  then show ?thesis by (simp add: removeAt_def)
qed

lemma length_filter_update:
  assumes "i < length xs"
  shows "length (filter P (xs[i := y])) + (if P (xs ! i) then 1 else 0) =
         length (filter P xs) + (if P y then 1 else 0)"
proof -
  have a: "filter P xs = filter P (take i xs @ xs ! i # drop (Suc i) xs)"
    using assms by (simp only: id_take_nth_drop [symmetric])
  have b: "xs[i := y] = take i xs @ y # drop (Suc i) xs"
    using assms by (rule upd_conv_take_nth_drop)
  show ?thesis unfolding a b by simp
qed

lemma rebuilt_fields:
  "request (rebuilt ds s) = request s"
  "pending (rebuilt ds s) = pending s"
  "interval (rebuilt ds s) = interval s"
  "refreshing (rebuilt ds s) = refreshing s"
  "broadcasting (rebuilt ds s) = broadcasting s"
  "timers (rebuilt ds s) = timers s"
  "fetches (rebuilt ds s) = fetches s"
  "batches (rebuilt ds s) = batches s"
  "lookups (rebuilt ds s) = lookups s"
  "broadcasts (rebuilt ds s) = broadcasts s"
  "ids (rebuilt ds s) = map getId ds"
  by (simp_all add: rebuilt_def built_def)

lemma wf_requested: "wf (requested b track ks s) = wf s"
  by (rule wf_cong) (simp_all add: requested_fields)

lemma wf_startTimeout: "wf (startTimeout s) = wf s"
  by (rule wf_cong) (simp_all add: startTimeout_def)

lemma wf_doBroadcast: "wf (doBroadcast s) = wf s"
  by (rule wf_cong) (simp_all add: doBroadcast_def)

lemma nth_store:
  "a < length h \<Longrightarrow>
   cdomainObject (h[t := (h ! t)\<lparr>data := v\<rparr>] ! a) = cdomainObject (h ! a) \<and>
   metadata (h[t := (h ! t)\<lparr>data := v\<rparr>] ! a) = metadata (h ! a)"
  by (cases "a = t") simp_all

lemma storeData_fields:
  "ids (storeData f v s) = ids s"
  "response (storeData f v s) = response s"
  "metadatas (storeData f v s) = metadatas s"
  "request (storeData f v s) = request s"
  "interval (storeData f v s) = interval s"
  "refreshing (storeData f v s) = refreshing s"
  "fetches (storeData f v s) = fetches s"
  "batches (storeData f v s) = batches s"
  "lookups (storeData f v s) = lookups s"
  "broadcasts (storeData f v s) = broadcasts s"
  "warnings (storeData f v s) = warnings s"
  "heap (storeData f v s) = (heap s)[target f := (heap s ! target f)\<lparr>data := v\<rparr>]"
  "pending (storeData f v s) = pending s - (if trackPending f then 1 else 0)"
  "broadcasting (storeData f v s) = True"
  "timers (storeData f v s) = (if broadcasting s then timers s else timers s @ [Broadcast])"
  by (simp_all add: storeData_def Let_def doBroadcast_def)

lemma wf_storeData:
  assumes "wf s"
  shows "wf (storeData f v s)"
proof -
  let ?t = "storeData f v s"
  have 1: "\<forall>k \<in> set (ids ?t). response ?t k \<noteq> None"
    using assms by (simp add: storeData_fields wf_def)
  have 2: "a < length (heap ?t) \<and> getId (cdomainObject (heap ?t ! a)) = k"
    if "response ?t k = Some a" for k a
  proof -
    from that assms have "a < length (heap s)" "getId (cdomainObject (heap s ! a)) = k"
      by (auto simp: storeData_fields wf_def)
    then show ?thesis by (simp add: storeData_fields nth_store)
  qed
  have "\<forall>k \<in> set (ids s). metadata (heap ?t ! the (response s k)) =
          metadata (heap s ! the (response s k))"
  proof
    fix k assume "k \<in> set (ids s)"
    with assms obtain a where "response s k = Some a" "a < length (heap s)"
      by (auto simp: wf_def)
    then show "metadata (heap ?t ! the (response s k)) = metadata (heap s ! the (response s k))"
      by (simp add: storeData_fields nth_store)
  qed
  then have "map (\<lambda>k. metadata (heap ?t ! the (response s k))) (ids s) =
             map (\<lambda>k. metadata (heap s ! the (response s k))) (ids s)"
    by simp
  with assms have 3: "metadatas ?t = map (\<lambda>k. metadata (heap ?t ! the (response ?t k))) (ids ?t)"
    by (simp add: storeData_fields(1-3) wf_def)
  from 1 2 3 show ?thesis unfolding wf_def by blast
qed

lemma pollCallback_requested:
  assumes "wf s"
  shows "pollCallback s =
    Inr (startTimeout
      ((if truthy (request s)
        then requested (batches s) False (ids s) (s\<lparr>batches := batches s + 1\<rparr>)
        else s)\<lparr>refreshing := False\<rparr>))"
  using requestTelemetry_requested [OF wf_hasEntries [OF assms], of False]
  by (simp add: pollCallback_def)

lemma requestData_requested:
  assumes "wf s"
  shows "requestData r s =
    Inr (batches s,
      requested (batches s) True (ids s) (s\<lparr>request := orEmptyObject r, batches := batches s + 1\<rparr>))"
proof -
  have "hasEntries (s\<lparr>request := orEmptyObject r\<rparr>) (ids (s\<lparr>request := orEmptyObject r\<rparr>))"
    using wf_hasEntries [OF assms] by (simp add: hasEntries_def)
  from requestTelemetry_requested [OF this, of True]
  show ?thesis by (simp add: requestData_def)
qed

lemma step_wf:
  assumes "wf s"
  shows "\<exists>s'. step e s = Inr s' \<and> wf s'"
proof (cases e)
  case (Watch d)
  have "wf (s\<lparr>lookups := lookups s @ [d]\<rparr>) = wf s" by (rule wf_cong) simp_all
  with assms Watch show ?thesis by simp
next
  case (Delegated i result)
  let ?s1 = "s\<lparr>lookups := removeAt i (lookups s)\<rparr>"
  have "wf ?s1 = wf s" by (rule wf_cong) simp_all
  with assms have w: "wf ?s1" by simp
  let ?ds = "case lookups s ! i of None \<Rightarrow> [] | Some d \<Rightarrow> relevantDomainObjects d result"
  have r: "wf (rebuilt ?ds ?s1)" using w by (rule wf_rebuilt)
  have "wf ((rebuilt ?ds ?s1)\<lparr>batches := b\<rparr>) = wf (rebuilt ?ds ?s1)" for b
    by (rule wf_cong) simp_all
  with r have "wf (requested b' True ks ((rebuilt ?ds ?s1)\<lparr>batches := b\<rparr>))" for b b' ks
    by (simp add: wf_requested)
  with r assms Delegated show ?thesis
    by (simp add: buildResponseContainers_rebuilt [OF w])
next
  case (DelegationFailed i)
  have "wf (s\<lparr>lookups := removeAt i (lookups s)\<rparr>) = wf s" by (rule wf_cong) simp_all
  with assms DelegationFailed show ?thesis by simp
next
  case (Fulfil i v)
  let ?s1 = "s\<lparr>fetches := (fetches s)[i := (fetches s ! i)\<lparr>status := Fulfilled\<rparr>]\<rparr>"
  have "wf ?s1 = wf s" by (rule wf_cong) simp_all
  with assms have "wf (storeData (fetches s ! i) v ?s1)" by (intro wf_storeData) simp
  with assms Fulfil show ?thesis by simp
next
  case (Reject i)
  have "wf (s\<lparr>fetches := (fetches s)[i := (fetches s ! i)\<lparr>status := Rejected\<rparr>]\<rparr>) = wf s"
    by (rule wf_cong) simp_all
  with assms Reject show ?thesis by simp
next
  case (Timeout i)
  let ?s1 = "s\<lparr>timers := removeAt i (timers s)\<rparr>"
  have "wf ?s1 = wf s" by (rule wf_cong) simp_all
  with assms have w: "wf ?s1" by simp
  have b: "wf (broadcastCallback ?s1)"
    using w by (simp add: wf_def broadcastCallback_def)
  have p: "\<exists>s'. pollCallback ?s1 = Inr s' \<and> wf s'"
  proof -
    have "wf ((requested (batches ?s1) False (ids ?s1) (?s1\<lparr>batches := batches ?s1 + 1\<rparr>))\<lparr>refreshing := False\<rparr>)"
      using w by (simp add: wf_def requested_fields)
    moreover have "wf (?s1\<lparr>refreshing := False\<rparr>)" using w by (simp add: wf_def)
    ultimately show ?thesis
      unfolding pollCallback_requested [OF w] by (simp add: wf_startTimeout)
  qed
  show ?thesis
  proof (cases "i < length (timers s)")
    case True
    then show ?thesis using Timeout b p by (cases "timers s ! i") simp_all
  next
    case False
    with assms Timeout show ?thesis by simp
  qed
next
  case (RequestData r)
  have "wf (s\<lparr>request := orEmptyObject r, batches := batches s + 1\<rparr>) = wf s"
    by (rule wf_cong) simp_all
  with assms RequestData show ?thesis
    by (simp add: requestData_requested [OF assms] wf_requested)
next
  case (SetRefreshInterval d)
  have "wf (s\<lparr>interval := d\<rparr>) = wf s" by (rule wf_cong) simp_all
  with assms SetRefreshInterval show ?thesis
    by (simp add: setRefreshInterval_def wf_startTimeout)
qed

lemma tinv_cong:
  "timers s' = timers s \<Longrightarrow> broadcasting s' = broadcasting s \<Longrightarrow> refreshing s' = refreshing s \<Longrightarrow>
   tinv s' = tinv s"
  by (simp add: tinv_def)

lemma pinv_cong:
  "pending s' = pending s \<Longrightarrow> fetches s' = fetches s \<Longrightarrow> pinv s' = pinv s"
  by (simp add: pinv_def)

lemma tinv_requested: "tinv (requested b track ks s) = tinv s"
  by (rule tinv_cong) (simp_all add: requested_fields)

lemma tinv_rebuilt: "tinv (rebuilt ds s) = tinv s"
  by (rule tinv_cong) (simp_all add: rebuilt_fields)

lemma tinv_startTimeout_keep: "tinv s \<Longrightarrow> tinv (startTimeout s)"
  by (auto simp: tinv_def startTimeout_def isPoll_def)

lemma tinv_storeData: "tinv s \<Longrightarrow> tinv (storeData f v s)"
  by (auto simp: tinv_def storeData_fields isPoll_def)

lemma filter_owed_issued:
  "filter owed (issued b track s ks) = (if track then issued b track s ks else [])"
  by (auto simp: issued_def owed_def filter_map comp_def)

lemma pinv_requested: "pinv s \<Longrightarrow> pinv (requested b track ks s)"
  by (simp add: pinv_def requested_fields filter_owed_issued)

lemma pinv_rebuilt: "pinv (rebuilt ds s) = pinv s"
  by (rule pinv_cong) (simp_all add: rebuilt_fields)

lemma pinv_startTimeout: "pinv (startTimeout s) = pinv s"
  by (rule pinv_cong) (simp_all add: startTimeout_def)

lemma pinv_Fulfil:
  assumes "pinv s" "i < length (fetches s)" "status (fetches s ! i) = Outstanding"
  shows "pinv (storeData (fetches s ! i) v
           (s\<lparr>fetches := (fetches s)[i := (fetches s ! i)\<lparr>status := Fulfilled\<rparr>]\<rparr>))"
proof -
  let ?f = "fetches s ! i"
  have "length (filter owed ((fetches s)[i := ?f\<lparr>status := Fulfilled\<rparr>])) + (if owed ?f then 1 else 0) =
        length (filter owed (fetches s)) + (if owed (?f\<lparr>status := Fulfilled\<rparr>) then 1 else 0)"
    using assms(2) by (rule length_filter_update)
  moreover have "owed ?f = trackPending ?f" using assms(3) by (simp add: owed_def)
  moreover have "\<not> owed (?f\<lparr>status := Fulfilled\<rparr>)" by (simp add: owed_def)
  ultimately show ?thesis
    using assms(1) by (auto simp: pinv_def storeData_fields split: if_splits)
qed

lemma pinv_Reject:
  assumes "pinv s" "i < length (fetches s)" "status (fetches s ! i) = Outstanding"
  shows "pinv (s\<lparr>fetches := (fetches s)[i := (fetches s ! i)\<lparr>status := Rejected\<rparr>]\<rparr>)"
proof -
  let ?f = "fetches s ! i"
  have "length (filter owed ((fetches s)[i := ?f\<lparr>status := Rejected\<rparr>])) + (if owed ?f then 1 else 0) =
        length (filter owed (fetches s)) + (if owed (?f\<lparr>status := Rejected\<rparr>) then 1 else 0)"
    using assms(2) by (rule length_filter_update)
  moreover have "owed ?f = trackPending ?f" using assms(3) by (simp add: owed_def)
  moreover have "owed (?f\<lparr>status := Rejected\<rparr>) = trackPending ?f" by (simp add: owed_def)
  ultimately show ?thesis
    using assms(1) by (auto simp: pinv_def split: if_splits)
qed

lemma tinv_Timeout:
  assumes "tinv s" "i < length (timers s)"
  shows "timers s ! i = Broadcast \<Longrightarrow> tinv (broadcastCallback (s\<lparr>timers := removeAt i (timers s)\<rparr>))"
    and "timers s ! i = Poll d \<Longrightarrow> tinv (s\<lparr>timers := removeAt i (timers s), refreshing := False\<rparr>)"
proof -
  have B: "length (filter (\<lambda>t. t = Broadcast) (removeAt i (timers s))) =
        length (filter (\<lambda>t. t = Broadcast) (timers s)) - (if timers s ! i = Broadcast then 1 else 0)"
    using assms(2) by (rule length_filter_removeAt)
  have P: "length (filter isPoll (removeAt i (timers s))) =
        length (filter isPoll (timers s)) - (if isPoll (timers s ! i) then 1 else 0)"
    using assms(2) by (rule length_filter_removeAt)
  have mem: "timers s ! i \<in> set (timers s)" using assms(2) by simp
  {
    assume b: "timers s ! i = Broadcast"
    then have "filter (\<lambda>t. t = Broadcast) (timers s) \<noteq> []"
      using mem by (auto simp: filter_empty_conv)
    then have "broadcasting s" using assms(1) by (auto simp: tinv_def split: if_splits)
    then show "tinv (broadcastCallback (s\<lparr>timers := removeAt i (timers s)\<rparr>))"
      using assms(1) B P b by (simp add: tinv_def broadcastCallback_def isPoll_def)
  }
  {
    assume p: "timers s ! i = Poll d"
    then have "filter isPoll (timers s) \<noteq> []"
      using mem by (auto simp: filter_empty_conv isPoll_def intro!: bexI [of _ "Poll d"])
    then have "refreshing s" using assms(1) by (auto simp: tinv_def split: if_splits)
    then show "tinv (s\<lparr>timers := removeAt i (timers s), refreshing := False\<rparr>)"
      using assms(1) B P p by (simp add: tinv_def isPoll_def)
  }
qed

lemma step_tinv:
  assumes "wf s" "tinv s" "step e s = Inr s'"
  shows "tinv s'"
proof (cases e)
  case (Watch d)
  have "tinv (s\<lparr>lookups := lookups s @ [d]\<rparr>) = tinv s" by (rule tinv_cong) simp_all
  with assms Watch show ?thesis by auto
next
  case (Delegated i result)
  let ?s1 = "s\<lparr>lookups := removeAt i (lookups s)\<rparr>"
  have "wf ?s1 = wf s" by (rule wf_cong) simp_all
  with assms have w: "wf ?s1" by simp
  have t1: "tinv ?s1 = tinv s" by (rule tinv_cong) simp_all
  have "tinv ((rebuilt ds ?s1)\<lparr>batches := b\<rparr>) = tinv (rebuilt ds ?s1)" for b ds
    by (rule tinv_cong) simp_all
  with t1 assms(2) have "tinv (requested b' True ks ((rebuilt ds ?s1)\<lparr>batches := b\<rparr>))"
    and "tinv (rebuilt ds ?s1)" for b b' ks ds
    by (simp_all add: tinv_requested tinv_rebuilt)
  with assms Delegated show ?thesis
    by (auto simp: buildResponseContainers_rebuilt [OF w] split: if_splits)
next
  case (DelegationFailed i)
  have "tinv (s\<lparr>lookups := removeAt i (lookups s)\<rparr>) = tinv s" by (rule tinv_cong) simp_all
  with assms DelegationFailed show ?thesis by (auto split: if_splits)
next
  case (Fulfil i v)
  let ?s1 = "s\<lparr>fetches := (fetches s)[i := (fetches s ! i)\<lparr>status := Fulfilled\<rparr>]\<rparr>"
  have "tinv ?s1 = tinv s" by (rule tinv_cong) simp_all
  with assms have "tinv (storeData (fetches s ! i) v ?s1)" by (intro tinv_storeData) simp
  with assms Fulfil show ?thesis by (auto split: if_splits)
next
  case (Reject i)
  have "tinv (s\<lparr>fetches := (fetches s)[i := (fetches s ! i)\<lparr>status := Rejected\<rparr>]\<rparr>) = tinv s"
    by (rule tinv_cong) simp_all
  with assms Reject show ?thesis by (auto split: if_splits)
next
  case (Timeout i)
  show ?thesis
  proof (cases "i < length (timers s)")
    case False
    with assms Timeout show ?thesis by simp
  next
    case True
    let ?s1 = "s\<lparr>timers := removeAt i (timers s)\<rparr>"
    have "wf ?s1 = wf s" by (rule wf_cong) simp_all
    with assms have w: "wf ?s1" by simp
    show ?thesis
    proof (cases "timers s ! i")
      case Broadcast
      with assms Timeout True tinv_Timeout(1) [OF assms(2) True] show ?thesis by auto
    next
      case (Poll d)
      let ?s2 = "s\<lparr>timers := removeAt i (timers s), refreshing := False\<rparr>"
      have t2: "tinv ?s2" using assms(2) True Poll by (rule tinv_Timeout(2))
      let ?r = "requested (batches ?s1) False (ids ?s1) (?s1\<lparr>batches := batches ?s1 + 1\<rparr>)"
      have "tinv (?r\<lparr>refreshing := False\<rparr>) = tinv ?s2"
        by (rule tinv_cong) (simp_all add: requested_fields)
      moreover have "?s1\<lparr>refreshing := False\<rparr> = ?s2" by simp
      ultimately have "tinv (startTimeout (?r\<lparr>refreshing := False\<rparr>))"
        and "tinv (startTimeout (?s1\<lparr>refreshing := False\<rparr>))"
        using t2 by (simp_all add: tinv_startTimeout_keep)
      with assms(3) Timeout True Poll show ?thesis
        by (auto simp: pollCallback_requested [OF w] split: if_splits)
    qed
  qed
next
  case (RequestData r)
  have "tinv (s\<lparr>request := orEmptyObject r, batches := batches s + 1\<rparr>) = tinv s"
    by (rule tinv_cong) simp_all
  with assms RequestData show ?thesis
    by (auto simp: requestData_requested [OF assms(1)] tinv_requested)
next
  case (SetRefreshInterval d)
  have "tinv (s\<lparr>interval := d\<rparr>) = tinv s" by (rule tinv_cong) simp_all
  with assms SetRefreshInterval show ?thesis
    by (auto simp: setRefreshInterval_def tinv_startTimeout_keep)
qed

lemma step_pinv:
  assumes "wf s" "pinv s" "step e s = Inr s'"
  shows "pinv s'"
proof (cases e)
  case (Watch d)
  have "pinv (s\<lparr>lookups := lookups s @ [d]\<rparr>) = pinv s" by (rule pinv_cong) simp_all
  with assms Watch show ?thesis by auto
next
  case (Delegated i result)
  let ?s1 = "s\<lparr>lookups := removeAt i (lookups s)\<rparr>"
  have "wf ?s1 = wf s" by (rule wf_cong) simp_all
  with assms have w: "wf ?s1" by simp
  have t1: "pinv ?s1 = pinv s" by (rule pinv_cong) simp_all
  have "pinv ((rebuilt ds ?s1)\<lparr>batches := b\<rparr>) = pinv (rebuilt ds ?s1)" for b ds
    by (rule pinv_cong) simp_all
  with t1 assms(2) have "pinv (requested b' True ks ((rebuilt ds ?s1)\<lparr>batches := b\<rparr>))"
    and "pinv (rebuilt ds ?s1)" for b b' ks ds
    by (simp_all add: pinv_requested pinv_rebuilt)
  with assms Delegated show ?thesis
    by (auto simp: buildResponseContainers_rebuilt [OF w] split: if_splits)
next
  case (DelegationFailed i)
  have "pinv (s\<lparr>lookups := removeAt i (lookups s)\<rparr>) = pinv s" by (rule pinv_cong) simp_all
  with assms DelegationFailed show ?thesis by (auto split: if_splits)
next
  case (Fulfil i v)
  with assms pinv_Fulfil [OF assms(2), of i v] show ?thesis by (auto split: if_splits)
next
  case (Reject i)
  with assms pinv_Reject [OF assms(2), of i] show ?thesis by (auto split: if_splits)
next
  case (Timeout i)
  show ?thesis
  proof (cases "i < length (timers s)")
    case False
    with assms Timeout show ?thesis by simp
  next
    case True
    let ?s1 = "s\<lparr>timers := removeAt i (timers s)\<rparr>"
    have "wf ?s1 = wf s" by (rule wf_cong) simp_all
    with assms have w: "wf ?s1" by simp
    have p1: "pinv ?s1" using assms(2) by (simp add: pinv_def)
    show ?thesis
    proof (cases "timers s ! i")
      case Broadcast
      have "pinv (broadcastCallback ?s1)" using p1 by (simp add: pinv_def broadcastCallback_def)
      with assms Timeout True Broadcast show ?thesis by auto
    next
      case (Poll d)
      let ?r = "requested (batches ?s1) False (ids ?s1) (?s1\<lparr>batches := batches ?s1 + 1\<rparr>)"
      have "pinv (?s1\<lparr>batches := batches ?s1 + 1\<rparr>)" using p1 by (simp add: pinv_def)
      then have "pinv ?r" by (rule pinv_requested)
      then have "pinv (?r\<lparr>refreshing := False\<rparr>)" by (simp add: pinv_def)
      moreover have "pinv (?s1\<lparr>refreshing := False\<rparr>)" using p1 by (simp add: pinv_def)
      ultimately have "pinv (startTimeout (?r\<lparr>refreshing := False\<rparr>))"
        and "pinv (startTimeout (?s1\<lparr>refreshing := False\<rparr>))"
        by (simp_all add: pinv_startTimeout)
      with assms(3) Timeout True Poll show ?thesis
        by (auto simp: pollCallback_requested [OF w] split: if_splits)
    qed
  qed
next
  case (RequestData r)
  have "pinv (s\<lparr>request := orEmptyObject r, batches := batches s + 1\<rparr>) = pinv s"
    by (rule pinv_cong) simp_all
  with assms RequestData show ?thesis
    by (auto simp: requestData_requested [OF assms(1)] pinv_requested)
next
  case (SetRefreshInterval d)
  have "pinv (s\<lparr>interval := d\<rparr>) = pinv s" by (rule pinv_cong) simp_all
  with assms SetRefreshInterval show ?thesis
    by (auto simp: setRefreshInterval_def pinv_startTimeout)
qed

lemma truthy_orEmptyObject: "truthy (orEmptyObject r)"
  by (simp add: orEmptyObject_def)

lemma step_request:
  assumes "wf s" "step e s = Inr s'"
  shows "request s' = (case e of RequestData r \<Rightarrow> orEmptyObject r | _ \<Rightarrow> request s)"
proof (cases e)
  case (Delegated i result)
  let ?s1 = "s\<lparr>lookups := removeAt i (lookups s)\<rparr>"
  have "wf ?s1 = wf s" by (rule wf_cong) simp_all
  with assms have w: "wf ?s1" by simp
  from assms Delegated show ?thesis
    by (auto simp: buildResponseContainers_rebuilt [OF w] requested_fields rebuilt_fields
        split: if_splits)
next
  case (Timeout i)
  let ?s1 = "s\<lparr>timers := removeAt i (timers s)\<rparr>"
  have "wf ?s1 = wf s" by (rule wf_cong) simp_all
  with assms have w: "wf ?s1" by simp
  show ?thesis
  proof (cases "i < length (timers s)")
    case True
    with assms Timeout show ?thesis
      by (cases "timers s ! i")
         (auto simp: pollCallback_requested [OF w] requested_fields broadcastCallback_def
            startTimeout_def split: if_splits)
  next
    case False
    with assms Timeout show ?thesis by simp
  qed
next
  case (RequestData r)
  with assms show ?thesis
    by (auto simp: requestData_requested [OF assms(1)] requested_fields)
qed (use assms in \<open>auto simp: storeData_fields setRefreshInterval_def startTimeout_def split: if_splits\<close>)

lemma binv_requested:
  assumes "binv s"
  shows "binv (requested (batches s) track ks (s\<lparr>batches := batches s + 1\<rparr>))"
proof -
  have "\<forall>f \<in> set (issued (batches s) track (s\<lparr>batches := batches s + 1\<rparr>) ks). batch f = batches s"
    by (auto simp: issued_def)
  with assms show ?thesis
    by (auto simp: binv_def requested_fields)
qed

lemma binv_cong:
  "fetches s' = fetches s \<Longrightarrow> batches s' = batches s \<Longrightarrow> binv s' = binv s"
  by (simp add: binv_def)

lemma binv_update:
  assumes "binv s" "batch g = batch (fetches s ! i)" "i < length (fetches s)"
  shows "binv (s\<lparr>fetches := (fetches s)[i := g]\<rparr>)"
proof -
  have "\<forall>f \<in> set ((fetches s)[i := g]). batch f < batches s"
  proof
    fix f assume "f \<in> set ((fetches s)[i := g])"
    then have "f = g \<or> f \<in> set (fetches s)"
      using set_update_subset_insert [of "fetches s" i g] by auto
    moreover have "batch g < batches s" using assms by (simp add: binv_def)
    ultimately show "batch f < batches s" using assms(1) by (auto simp: binv_def)
  qed
  then show ?thesis by (simp add: binv_def)
qed

lemma step_binv:
  assumes "wf s" "binv s" "step e s = Inr s'"
  shows "binv s'"
proof (cases e)
  case (Watch d)
  have "binv (s\<lparr>lookups := lookups s @ [d]\<rparr>) = binv s" by (rule binv_cong) simp_all
  with assms Watch show ?thesis by auto
next
  case (Delegated i result)
  let ?s1 = "s\<lparr>lookups := removeAt i (lookups s)\<rparr>"
  have "wf ?s1 = wf s" by (rule wf_cong) simp_all
  with assms have w: "wf ?s1" by simp
  have "binv (rebuilt ds ?s1) = binv s" for ds
    by (rule binv_cong) (simp_all add: rebuilt_fields)
  with assms(2) have r: "binv (rebuilt ds ?s1)" for ds by simp
  have "binv (requested (batches (rebuilt ds ?s1)) True ks ((rebuilt ds ?s1)\<lparr>batches := batches (rebuilt ds ?s1) + 1\<rparr>))"
    for ks ds
    using r by (rule binv_requested)
  then have "binv (requested (batches s) True ks ((rebuilt ds ?s1)\<lparr>batches := batches s + 1\<rparr>))"
    for ks ds
    by (simp add: rebuilt_fields)
  with r assms Delegated show ?thesis
    by (auto simp: buildResponseContainers_rebuilt [OF w] split: if_splits)
next
  case (DelegationFailed i)
  have "binv (s\<lparr>lookups := removeAt i (lookups s)\<rparr>) = binv s" by (rule binv_cong) simp_all
  with assms DelegationFailed show ?thesis by (auto split: if_splits)
next
  case (Fulfil i v)
  let ?s1 = "s\<lparr>fetches := (fetches s)[i := (fetches s ! i)\<lparr>status := Fulfilled\<rparr>]\<rparr>"
  have "binv (storeData f v ?s1) = binv ?s1" for f
    by (rule binv_cong) (simp_all add: storeData_fields)
  moreover have "i < length (fetches s) \<Longrightarrow> binv ?s1"
    using assms(2) by (intro binv_update) simp_all
  ultimately show ?thesis using assms Fulfil by (auto split: if_splits)
next
  case (Reject i)
  have "i < length (fetches s) \<Longrightarrow>
        binv (s\<lparr>fetches := (fetches s)[i := (fetches s ! i)\<lparr>status := Rejected\<rparr>]\<rparr>)"
    using assms(2) by (intro binv_update) simp_all
  with assms Reject show ?thesis by (auto split: if_splits)
next
  case (Timeout i)
  show ?thesis
  proof (cases "i < length (timers s)")
    case False
    with assms Timeout show ?thesis by simp
  next
    case True
    let ?s1 = "s\<lparr>timers := removeAt i (timers s)\<rparr>"
    have "wf ?s1 = wf s" by (rule wf_cong) simp_all
    with assms have w: "wf ?s1" by simp
    have "binv ?s1 = binv s" by (rule binv_cong) simp_all
    with assms have p1: "binv ?s1" by simp
    show ?thesis
    proof (cases "timers s ! i")
      case Broadcast
      have "binv (broadcastCallback ?s1) = binv ?s1"
        by (rule binv_cong) (simp_all add: broadcastCallback_def)
      with p1 assms Timeout True Broadcast show ?thesis by auto
    next
      case (Poll d)
      let ?r = "requested (batches ?s1) False (ids ?s1) (?s1\<lparr>batches := batches ?s1 + 1\<rparr>)"
      have r: "binv ?r" using p1 by (rule binv_requested)
      have "binv (startTimeout (?r\<lparr>refreshing := False\<rparr>)) = binv ?r"
        by (rule binv_cong) (simp_all add: startTimeout_def)
      moreover have "binv (startTimeout (?s1\<lparr>refreshing := False\<rparr>)) = binv ?s1"
        by (rule binv_cong) (simp_all add: startTimeout_def)
      ultimately show ?thesis using r p1 assms(3) Timeout True Poll
        by (auto simp: pollCallback_requested [OF w] split: if_splits)
    qed
  qed
next
  case (RequestData r)
  let ?s1 = "s\<lparr>request := orEmptyObject r\<rparr>"
  have "binv ?s1 = binv s" by (rule binv_cong) simp_all
  with assms have "binv ?s1" by simp
  then have "binv (requested (batches ?s1) True (ids s) (?s1\<lparr>batches := batches ?s1 + 1\<rparr>))"
    by (rule binv_requested)
  with assms RequestData show ?thesis
    by (auto simp: requestData_requested [OF assms(1)])
next
  case (SetRefreshInterval d)
  have "binv (startTimeout (s\<lparr>interval := d\<rparr>)) = binv s"
    by (rule binv_cong) (simp_all add: startTimeout_def)
  with assms SetRefreshInterval show ?thesis
    by (auto simp: setRefreshInterval_def)
qed

lemma step_consistent: "consistent s \<Longrightarrow> \<exists>s'. step e s = Inr s' \<and> consistent s'"
proof -
  assume c: "consistent s"
  then have w: "wf s" by (simp add: consistent_def)
  from step_wf [OF w] obtain s' where s': "step e s = Inr s'" "wf s'" by blast
  have "truthy (request s')"
    using step_request [OF w s'(1)] c
    by (cases e) (simp_all add: consistent_def truthy_orEmptyObject)
  with c s' step_tinv [OF w _ s'(1)] step_pinv [OF w _ s'(1)] step_binv [OF w _ s'(1)]
  show ?thesis by (auto simp: consistent_def)
qed

lemma run_consistent: "consistent s \<Longrightarrow> \<exists>s'. run es s = Inr s' \<and> consistent s'"
proof (induction es arbitrary: s)
  case Nil
  then show ?case by simp
next
  case (Cons e es)
  from step_consistent [OF Cons.prems] obtain s1 where "step e s = Inr s1" "consistent s1"
    by blast
  with Cons.IH [of s1] show ?case by simp
qed

lemma consistent_initial: "consistent TelemetryController"
  by (simp add: consistent_def wf_def tinv_def pinv_def binv_def TelemetryController_def
      selfInitial_def startTimeout_def isPoll_def)

lemma reachable_consistent: "run es TelemetryController = Inr s \<Longrightarrow> consistent s"
  using run_consistent [OF consistent_initial, of es] by auto

lemma run_append:
  "run (es @ es') s = bindE (run es s) (run es')"
proof (induction es arbitrary: s)
  case Nil
  show ?case by simp
next
  case (Cons e es)
  then show ?case by (cases "step e s") simp_all
qed

section \<open>A turn in a well-formed state\<close>

lemmas controller_defs =
  TelemetryController_def selfInitial_def startTimeout_def buildResponseContainers_def
  relevantDomainObjects_def buildResponseContainer_def entry_def requestTelemetry_def
  requestTelemetryForId_def removeAt_def Let_def storeData_def doBroadcast_def
  broadcastCallback_def pollCallback_def requestData_def setRefreshInterval_def
  orEmptyObject_def

lemma step_effect:
  assumes "wf s"
  shows "step e s = Inr (effect e s)"
proof (cases e)
  case (Delegated i result)
  let ?s1 = "s\<lparr>lookups := removeAt i (lookups s)\<rparr>"
  have "wf ?s1 = wf s" by (rule wf_cong) simp_all
  with assms have w: "wf ?s1" by simp
  show ?thesis
    using Delegated
    by (simp add: buildResponseContainers_rebuilt [OF w] resolved_def rebuilt_fields Let_def)
next
  case (Timeout i)
  let ?s1 = "s\<lparr>timers := removeAt i (timers s)\<rparr>"
  have "wf ?s1 = wf s" by (rule wf_cong) simp_all
  with assms have w: "wf ?s1" by simp
  show ?thesis
  proof (cases "i < length (timers s)")
    case True
    then show ?thesis using Timeout
      by (cases "timers s ! i") (simp_all add: pollCallback_requested [OF w] Let_def)
  next
    case False
    then show ?thesis using Timeout by simp
  qed
next
  case (RequestData r)
  then show ?thesis by (simp add: requestData_requested [OF assms])
qed auto

lemma effect_response:
  "response (effect e s) =
     (case e of
        Delegated i result \<Rightarrow>
          if i < length (lookups s)
          then bound (response s) (length (heap s)) (resolved s i result)
          else response s
      | _ \<Rightarrow> response s)"
  by (cases e)
     (auto simp: Let_def requested_fields rebuilt_def built_def storeData_fields
        broadcastCallback_def startTimeout_def setRefreshInterval_def split: task.splits)

lemma effect_ids:
  "ids (effect e s) =
     (case e of
        Delegated i result \<Rightarrow>
          if i < length (lookups s) then map getId (resolved s i result) else ids s
      | _ \<Rightarrow> ids s)"
  by (cases e)
     (auto simp: Let_def requested_fields rebuilt_fields storeData_fields
        broadcastCallback_def startTimeout_def setRefreshInterval_def split: task.splits)

lemma entry_wf:
  assumes "wf s" "k \<in> set (ids s)"
  shows "\<exists>a c. entry s k = Inr (a, c) \<and> getId (cdomainObject c) = k"
proof -
  from assms obtain a where "response s k = Some a" by (auto simp: wf_def)
  moreover from this assms(1) have "a < length (heap s)" "getId (cdomainObject (heap s ! a)) = k"
    by (auto simp: wf_def)
  ultimately show ?thesis by (simp add: entry_def)
qed

section \<open>The identifier list and the entry mapping\<close>

lemma bound_other: "k \<notin> getId ` set ds \<Longrightarrow> bound r n ds k = r k"
  by (induction ds arbitrary: r n) auto

lemma bound_last:
  "k \<in> getId ` set ds \<Longrightarrow>
   \<exists>j < length ds. bound r n ds k = Some (n + j) \<and> ds ! j = lastWith k ds"
proof (induction ds arbitrary: r n)
  case Nil
  then show ?case by simp
next
  case (Cons d ds)
  show ?case
  proof (cases "k \<in> getId ` set ds")
    case True
    from Cons.IH [OF True, of "r(getId d \<mapsto> n)" "Suc n"]
    obtain j where j: "j < length ds" "bound (r(getId d \<mapsto> n)) (Suc n) ds k = Some (Suc n + j)"
      "ds ! j = lastWith k ds" by blast
    from True have "filter (\<lambda>d. getId d = k) ds \<noteq> []"
      by (auto simp: filter_empty_conv)
    then have "lastWith k (d # ds) = lastWith k ds" by (simp add: lastWith_def)
    with j show ?thesis by (intro exI [of _ "Suc j"]) simp
  next
    case False
    with Cons.prems have k: "getId d = k" by auto
    from False have "filter (\<lambda>d. getId d = k) ds = []" by (auto simp: filter_empty_conv)
    with k have "lastWith k (d # ds) = d" by (simp add: lastWith_def)
    moreover have "bound (r(getId d \<mapsto> n)) (Suc n) ds k = Some n"
      using False k by (simp add: bound_other)
    ultimately show ?thesis by (intro exI [of _ 0]) simp
  qed
qed

lemma effect_heap_Delegated:
  "i < length (lookups s) \<Longrightarrow>
   heap (effect (Delegated i result) s) = heap s @ map containerFor (resolved s i result)"
  by (simp add: Let_def requested_fields rebuilt_def built_def resolved_def)

lemma containerFor_fields:
  "cname (containerFor d) = name (getModel d)"
  "cdomainObject (containerFor d) = d"
  "metadata (containerFor d) = (case telemetry d of Some m \<Rightarrow> m | None \<Rightarrow> JObj [])"
  "cpending (containerFor d) = 0"
  "data (containerFor d) = JObj []"
  by (simp_all add: containerFor_def)

text \<open>
  Claim C3, as amended. In every state the controller can reach, every identifier of
  \<^verbatim>\<open>self.ids\<close> has an entry in \<^verbatim>\<open>self.response\<close> (one, the mapping being a
  dictionary), and the entry holds the domain object of that identifier. No turn
  removes an entry: the keys of \<^verbatim>\<open>self.response\<close> only grow, and only the turn in
  which a delegation lookup resolves changes the identifier list or the mapping. That
  turn replaces the identifier list by the identifiers of the resolved objects and
  gives each of them a container that did not exist before, built from the last
  resolved object with that identifier: its name, the object itself, the metadata of
  its telemetry capability (\<^verbatim>\<open>{}\<close> without one), a count of 0 and the empty payload
  \<^verbatim>\<open>{}\<close>. The entries of all other identifiers, and all containers that existed, are
  left as they are.
\<close>

theorem identifiers_have_entries:
  assumes "run es TelemetryController = Inr s"
  shows "(\<forall>k \<in> set (ids s). \<exists>a c. entry s k = Inr (a, c) \<and> getId (cdomainObject c) = k) \<and>
         (\<forall>e. \<exists>s'. step e s = Inr s' \<and> dom (response s) \<subseteq> dom (response s') \<and>
            ((\<forall>i result. e \<noteq> Delegated i result) \<longrightarrow>
               ids s' = ids s \<and> response s' = response s)) \<and>
         (\<forall>i result. i < length (lookups s) \<longrightarrow>
            (\<exists>s'. step (Delegated i result) s = Inr s' \<and>
               ids s' = map getId (resolved s i result) \<and>
               (\<forall>k \<in> set (ids s'). \<exists>a c.
                  entry s' k = Inr (a, c) \<and> length (heap s) \<le> a \<and>
                  cdomainObject c = lastWith k (resolved s i result) \<and>
                  cname c = name (getModel (cdomainObject c)) \<and>
                  metadata c =
                    (case telemetry (cdomainObject c) of Some m \<Rightarrow> m | None \<Rightarrow> JObj []) \<and>
                  cpending c = 0 \<and> data c = JObj []) \<and>
               (\<forall>k. k \<notin> set (ids s') \<longrightarrow> response s' k = response s k) \<and>
               (\<forall>a < length (heap s). heap s' ! a = heap s ! a)))"
proof -
  from assms have w: "wf s" using reachable_consistent by (auto simp: consistent_def)
  have 1: "\<forall>k \<in> set (ids s). \<exists>a c. entry s k = Inr (a, c) \<and> getId (cdomainObject c) = k"
    using entry_wf [OF w] by blast
  have 2: "\<exists>s'. step e s = Inr s' \<and> dom (response s) \<subseteq> dom (response s') \<and>
            ((\<forall>i result. e \<noteq> Delegated i result) \<longrightarrow>
               ids s' = ids s \<and> response s' = response s)" for e
  proof -
    have "dom (response s) \<subseteq> dom (response (effect e s))"
      using bound_defined [of "response s"]
      by (cases e) (auto simp: effect_response simp del: effect.simps)
    moreover have "(\<forall>i result. e \<noteq> Delegated i result) \<longrightarrow>
        ids (effect e s) = ids s \<and> response (effect e s) = response s"
      by (cases e) (simp_all add: effect_response effect_ids del: effect.simps)
    ultimately show ?thesis by (simp add: step_effect [OF w])
  qed
  have 3: "\<exists>s'. step (Delegated i result) s = Inr s' \<and>
               ids s' = map getId (resolved s i result) \<and>
               (\<forall>k \<in> set (ids s'). \<exists>a c.
                  entry s' k = Inr (a, c) \<and> length (heap s) \<le> a \<and>
                  cdomainObject c = lastWith k (resolved s i result) \<and>
                  cname c = name (getModel (cdomainObject c)) \<and>
                  metadata c =
                    (case telemetry (cdomainObject c) of Some m \<Rightarrow> m | None \<Rightarrow> JObj []) \<and>
                  cpending c = 0 \<and> data c = JObj []) \<and>
               (\<forall>k. k \<notin> set (ids s') \<longrightarrow> response s' k = response s k) \<and>
               (\<forall>a < length (heap s). heap s' ! a = heap s ! a)"
    if i: "i < length (lookups s)" for i result
  proof -
    let ?ds = "resolved s i result"
    let ?s' = "effect (Delegated i result) s"
    have st: "step (Delegated i result) s = Inr ?s'" by (rule step_effect [OF w])
    have ids: "ids ?s' = map getId ?ds"
      using i by (simp add: effect_ids del: effect.simps)
    have r: "response ?s' = bound (response s) (length (heap s)) ?ds"
      using i by (simp add: effect_response del: effect.simps)
    have h: "heap ?s' = heap s @ map containerFor ?ds"
      using i by (rule effect_heap_Delegated)
    have a: "\<exists>a c. entry ?s' k = Inr (a, c) \<and> length (heap s) \<le> a \<and>
                  cdomainObject c = lastWith k ?ds \<and>
                  cname c = name (getModel (cdomainObject c)) \<and>
                  metadata c =
                    (case telemetry (cdomainObject c) of Some m \<Rightarrow> m | None \<Rightarrow> JObj []) \<and>
                  cpending c = 0 \<and> data c = JObj []"
      if "k \<in> set (ids ?s')" for k
    proof -
      from that have "k \<in> getId ` set ?ds" unfolding ids by simp
      from bound_last [OF this, of "response s" "length (heap s)"]
      obtain j where j: "j < length ?ds"
        "bound (response s) (length (heap s)) ?ds k = Some (length (heap s) + j)"
        "?ds ! j = lastWith k ?ds" by blast
      have "entry ?s' k = Inr (length (heap s) + j, containerFor (?ds ! j))"
        unfolding entry_def r h using j(1,2) by (simp add: nth_append)
      then show ?thesis using j(3) by (simp add: containerFor_fields)
    qed
    have b: "response ?s' k = response s k" if "k \<notin> set (ids ?s')" for k
    proof -
      from that have "k \<notin> getId ` set ?ds" unfolding ids by simp
      then show ?thesis unfolding r by (rule bound_other)
    qed
    have c: "heap ?s' ! a = heap s ! a" if "a < length (heap s)" for a
      unfolding h using that by (simp add: nth_append)
    from st ids a b c show ?thesis by blast
  qed
  from 1 2 3 show ?thesis by blast
qed

theorem identifiers_have_entries_witness:
  "\<exists>s. run [Watch (Some sensorA), Delegated 0 None, Fulfil 0 (JNum 7), Watch (Some sensorA)]
          TelemetryController = Inr s \<and>
       ids s = [''a''] \<and> 0 < length (lookups s) \<and>
       (\<exists>a c. entry s ''a'' = Inr (a, c) \<and> data c = JNum 7) \<and>
       (\<exists>s'. step (Delegated 0 None) s = Inr s' \<and> ids s' = [''a''] \<and>
          (\<exists>a c. entry s' ''a'' = Inr (a, c) \<and> 1 \<le> a \<and> cdomainObject c = sensorA \<and>
             metadata c = JNum 1 \<and> data c = JObj []))"
proof -
  have r: "run [Watch (Some sensorA), Delegated 0 None, Fulfil 0 (JNum 7), Watch (Some sensorA)]
      TelemetryController =
    Inr \<lparr>ids = [''a''], response = [''a'' \<mapsto> 0], request = JObj [],
           pending = 0, metadatas = [JNum 1], interval = JNum 1000,
           refreshing = True, broadcasting = True,
           heap = [\<lparr>cname = ''A'', cdomainObject = sensorA,
                  metadata = JNum 1, cpending = 0, data = JNum 7\<rparr>],
           timers = [Poll (JNum 1000), Broadcast],
           fetches = [\<lparr>target = 0, trackPending = True, params = JObj [], batch = 0,
                  status = Fulfilled\<rparr>],
           batches = Suc 0, lookups = [Some sensorA], broadcasts = 0, warnings = []\<rparr>"
    by (simp add: controller_defs sensorA_def)
  from identifiers_have_entries [OF r] show ?thesis
    unfolding r by (simp add: controller_defs sensorA_def)
qed


text \<open>
  Claim C3 as stated fails: after the represented object changes from \<open>sensorA\<close> to
  \<open>sensorB\<close>, the identifier \<open>a\<close> is no longer in the list and its entry is still
  in the mapping.
\<close>

theorem stale_entry_kept:
  "\<exists>s. run [Watch (Some sensorA), Delegated 0 None, Watch (Some sensorB), Delegated 0 None]
          TelemetryController = Inr s \<and>
       ids s = [''b''] \<and> ''a'' \<notin> set (ids s) \<and> response s ''a'' = Some 0"
  by (simp add: controller_defs sensorA_def sensorB_def)

lemma run_noId:
  "run [Watch (Some sensorNoId), Delegated 0 None, Fulfil 0 (JNum 7)] TelemetryController =
    Inr \<lparr>ids = [[]], response = [[] \<mapsto> 0], request = JObj [],
           pending = 0, metadatas = [JNum 3], interval = JNum 1000,
           refreshing = True, broadcasting = True,
           heap = [\<lparr>cname = ''N'', cdomainObject = sensorNoId,
                  metadata = JNum 3, cpending = 0, data = JNum 7\<rparr>],
           timers = [Poll (JNum 1000), Broadcast],
           fetches = [\<lparr>target = 0, trackPending = True, params = JObj [], batch = 0,
                  status = Fulfilled\<rparr>],
           batches = Suc 0, lookups = [], broadcasts = 0, warnings = []\<rparr>"
  by (simp add: controller_defs sensorNoId_def)

lemma run_sensorA:
  "run [Watch (Some sensorA), Delegated 0 None, Fulfil 0 (JNum 7)] TelemetryController =
    Inr \<lparr>ids = [''a''], response = [''a'' \<mapsto> 0], request = JObj [],
           pending = 0, metadatas = [JNum 1], interval = JNum 1000,
           refreshing = True, broadcasting = True,
           heap = [\<lparr>cname = ''A'', cdomainObject = sensorA,
                  metadata = JNum 1, cpending = 0, data = JNum 7\<rparr>],
           timers = [Poll (JNum 1000), Broadcast],
           fetches = [\<lparr>target = 0, trackPending = True, params = JObj [], batch = 0,
                  status = Fulfilled\<rparr>],
           batches = Suc 0, lookups = [], broadcasts = 0, warnings = []\<rparr>"
  by (simp add: controller_defs sensorA_def)

lemma dataOf_entry: "entry s k = Inr (a, c) \<Longrightarrow> dataOf s k = data c"
  by (auto simp: entry_def dataOf_def split: option.splits if_splits)

lemma dataOf_unknown:
  "response s k = None \<Longrightarrow> response s ''__proto__'' = None \<Longrightarrow> dataOf s k = JUndefined"
  by (simp add: dataOf_def)

section \<open>The argument forms of getResponse\<close>

text \<open>
  With at least one stack frame, \<^verbatim>\<open>getResponse\<close> given a non-empty identifier that
  has an entry, or a domain object with such an identifier, returns the \<^verbatim>\<open>data\<close> of
  that entry; given a non-empty identifier that is found neither among the entries nor
  in a prototype container it returns \<^verbatim>\<open>undefined\<close>. With at least two frames and no
  empty string among the tracked identifiers, the call without argument returns an
  array as long as the identifier list whose element at each index is what the call
  with the identifier at that index returns.
\<close>

lemma getResponse_by_argument:
  "(\<forall>k a c. k \<noteq> [] \<and> entry s k = Inr (a, c) \<longrightarrow>
      getResponse (Suc n) s (ArgVal (JStr k)) = Inr (data c)) \<and>
   (\<forall>d a c. getId d \<noteq> [] \<and> entry s (getId d) = Inr (a, c) \<longrightarrow>
      getResponse (Suc n) s (ArgObj d) = Inr (data c)) \<and>
   (\<forall>k. k \<noteq> [] \<and> response s k = None \<and> response s ''__proto__'' = None \<longrightarrow>
      getResponse (Suc n) s (ArgVal (JStr k)) = Inr JUndefined) \<and>
   ([] \<notin> set (ids s) \<longrightarrow>
      (\<exists>vs. getResponse (Suc (Suc n)) s (ArgVal JUndefined) = Inr (JArr vs) \<and>
            length vs = length (ids s) \<and>
            (\<forall>i < length (ids s).
               getResponse (Suc n) s (ArgVal (JStr (ids s ! i))) = Inr (vs ! i))))"
proof (intro conjI allI impI)
  fix k a c assume "k \<noteq> [] \<and> entry s k = Inr (a, c)"
  then show "getResponse (Suc n) s (ArgVal (JStr k)) = Inr (data c)"
    by (simp add: getResponse_string dataOf_entry del: getResponse.simps)
next
  fix d a c assume "getId d \<noteq> [] \<and> entry s (getId d) = Inr (a, c)"
  then show "getResponse (Suc n) s (ArgObj d) = Inr (data c)"
    by (simp add: getResponse_object dataOf_entry del: getResponse.simps)
next
  fix k assume "k \<noteq> [] \<and> response s k = None \<and> response s ''__proto__'' = None"
  then show "getResponse (Suc n) s (ArgVal (JStr k)) = Inr JUndefined"
    by (simp add: getResponse_string dataOf_unknown del: getResponse.simps)
next
  assume e: "[] \<notin> set (ids s)"
  have "getResponse (Suc (Suc n)) s (ArgVal JUndefined) = Inr (JArr (map (dataOf s) (ids s)))"
    using e by (rule getResponse_all) simp
  moreover have "\<forall>i < length (ids s).
      getResponse (Suc n) s (ArgVal (JStr (ids s ! i))) = Inr (map (dataOf s) (ids s) ! i)"
  proof (intro allI impI)
    fix i assume i: "i < length (ids s)"
    with e have "ids s ! i \<noteq> []" by (metis nth_mem)
    with i show "getResponse (Suc n) s (ArgVal (JStr (ids s ! i))) = Inr (map (dataOf s) (ids s) ! i)"
      by (simp add: getResponse_string del: getResponse.simps)
  qed
  ultimately show "\<exists>vs. getResponse (Suc (Suc n)) s (ArgVal JUndefined) = Inr (JArr vs) \<and>
            length vs = length (ids s) \<and>
            (\<forall>i < length (ids s).
               getResponse (Suc n) s (ArgVal (JStr (ids s ! i))) = Inr (vs ! i))"
    by (intro exI [of _ "map (dataOf s) (ids s)"]) simp
qed

text \<open>
  A read that goes on in the prototype: once an object with the identifier
  \<^verbatim>\<open>__proto__\<close> is tracked and its payload is \<^verbatim>\<open>{data: 9}\<close>, the identifier
  \<^verbatim>\<open>data\<close>, which has no entry, finds that payload, and the call returns the
  property \<^verbatim>\<open>data\<close> of the payload, 9. With the payload 9 it returns
  \<^verbatim>\<open>undefined\<close>, a number having no such property.
\<close>

lemma getResponse_prototype:
  "(\<exists>s. run [Watch (Some sensorProto), Delegated 0 None, Fulfil 0 (JObj [(''data'', JNum 9)])]
          TelemetryController = Inr s \<and>
       response s ''data'' = None \<and>
       getResponse 1 s (ArgVal (JStr ''__proto__'')) = Inr (JObj [(''data'', JNum 9)]) \<and>
       getResponse 1 s (ArgVal (JStr ''data'')) = Inr (JNum 9) \<and>
       getResponse 1 s (ArgVal (JStr ''name'')) = Inr JUndefined) \<and>
   (\<exists>s. run [Watch (Some sensorProto), Delegated 0 None, Fulfil 0 (JNum 9)]
          TelemetryController = Inr s \<and>
       getResponse 1 s (ArgVal (JStr ''__proto__'')) = Inr (JNum 9) \<and>
       getResponse 1 s (ArgVal (JStr ''data'')) = Inr JUndefined)"
  by (simp add: controller_defs sensorProto_def dataOf_def dataProperty_def)

text \<open>
  Claim C5: \<^verbatim>\<open>getResponse\<close> given the identifier or the domain object of a tracked
  entry returns the latest payload of that entry, as the documentation of
  \<^verbatim>\<open>getResponse\<close> says (with an argument it returns a single object). The code does
  not do so for a tracked entry whose identifier is the empty string: the guard
  \<^verbatim>\<open>if (id)\<close> tests truthiness, so the call takes the branch for all entries and from
  there calls itself with the same identifier. Below, the entry holds the payload 7,
  and \<^verbatim>\<open>getResponse\<close> given its identifier or its domain object ends in a RangeError
  whatever the stack allows.
\<close>

theorem getResponse_empty_identifier:
  "\<exists>s. run [Watch (Some sensorNoId), Delegated 0 None, Fulfil 0 (JNum 7)] TelemetryController = Inr s \<and>
       (\<exists>a c. entry s [] = Inr (a, c) \<and> data c = JNum 7) \<and>
       (\<forall>n. getResponse n s (ArgVal (JStr [])) = Inl RangeError) \<and>
       (\<forall>n. getResponse (Suc n) s (ArgObj sensorNoId) = Inl RangeError)"
proof -
  let ?s = "\<lparr>ids = [[]], response = [[] \<mapsto> 0], request = JObj [],
           pending = 0, metadatas = [JNum 3], interval = JNum 1000,
           refreshing = True, broadcasting = True,
           heap = [\<lparr>cname = ''N'', cdomainObject = sensorNoId,
                  metadata = JNum 3, cpending = 0, data = JNum 7\<rparr>],
           timers = [Poll (JNum 1000), Broadcast],
           fetches = [\<lparr>target = 0, trackPending = True, params = JObj [], batch = 0,
                  status = Fulfilled\<rparr>],
           batches = Suc 0, lookups = [], broadcasts = 0, warnings = []\<rparr>"
  have i: "[] \<in> set (ids ?s)" by simp
  have 1: "getResponse n ?s (ArgVal (JStr [])) = Inl RangeError" for n
    using i by (rule getResponse_overflow) simp
  have "getResponse (Suc n) ?s (ArgObj sensorNoId) = getResponse (Suc n) ?s (ArgVal (JStr []))" for n
    by (simp add: sensorNoId_def)
  with 1 have 2: "getResponse (Suc n) ?s (ArgObj sensorNoId) = Inl RangeError" for n
    by (simp del: getResponse.simps)
  have 3: "\<exists>a c. entry ?s [] = Inr (a, c) \<and> data c = JNum 7"
    by (simp add: entry_def)
  from 1 2 3 show ?thesis unfolding run_noId by (simp del: getResponse.simps)
qed

section \<open>Falsy arguments of getResponse\<close>

lemma getResponse_falsy_same:
  "\<not> truthy v \<Longrightarrow> getResponse n s (ArgVal v) = getResponse n s (ArgVal JUndefined)"
  by (cases n) (simp_all add: getResponse_falsy del: getResponse.simps(2))

text \<open>
  A falsy argument of \<^verbatim>\<open>getResponse\<close>, the empty string included, gives what the
  call without argument gives. With at least two stack frames and no empty string
  among the tracked identifiers that is the array of the values
  \<^verbatim>\<open>(self.response[id] || {}).data\<close> in the order of \<^verbatim>\<open>self.ids\<close>; with the empty
  string among them the stack is exhausted.
\<close>

lemma getResponse_falsy_argument:
  assumes "\<not> truthy v"
  shows "getResponse n s (ArgVal v) = getResponse n s (ArgVal JUndefined) \<and>
         ([] \<notin> set (ids s) \<longrightarrow>
            getResponse (Suc (Suc n)) s (ArgVal v) = Inr (JArr (map (dataOf s) (ids s)))) \<and>
         ([] \<in> set (ids s) \<longrightarrow> getResponse n s (ArgVal v) = Inl RangeError)"
  using assms getResponse_falsy_same [of v n s] getResponse_all [of s v n]
    getResponse_overflow [of s v n]
  by blast

text \<open>
  Claim C10: \<^verbatim>\<open>getResponse\<close> called with a falsy argument, the empty string in
  particular, is treated as the call without argument and returns the array of the
  payloads of all tracked entries, the array that the documentation of
  \<^verbatim>\<open>getResponse\<close> promises for that form. The code returns no array when the empty
  string is itself a tracked identifier: the call with the empty string, falsy, ends in
  a RangeError whatever the stack allows.
\<close>

theorem getResponse_falsy_no_array:
  "\<exists>s. run [Watch (Some sensorNoId), Delegated 0 None, Fulfil 0 (JNum 7)] TelemetryController = Inr s \<and>
       \<not> truthy (JStr []) \<and>
       (\<forall>n vs. getResponse n s (ArgVal (JStr [])) \<noteq> Inr (JArr vs))"
proof -
  let ?s = "\<lparr>ids = [[]], response = [[] \<mapsto> 0], request = JObj [],
           pending = 0, metadatas = [JNum 3], interval = JNum 1000,
           refreshing = True, broadcasting = True,
           heap = [\<lparr>cname = ''N'', cdomainObject = sensorNoId,
                  metadata = JNum 3, cpending = 0, data = JNum 7\<rparr>],
           timers = [Poll (JNum 1000), Broadcast],
           fetches = [\<lparr>target = 0, trackPending = True, params = JObj [], batch = 0,
                  status = Fulfilled\<rparr>],
           batches = Suc 0, lookups = [], broadcasts = 0, warnings = []\<rparr>"
  have i: "[] \<in> set (ids ?s)" by simp
  have "getResponse n ?s (ArgVal (JStr [])) = Inl RangeError" for n
    using i by (rule getResponse_overflow) simp
  then have "getResponse n ?s (ArgVal (JStr [])) \<noteq> Inr (JArr vs)" for n vs
    by (simp del: getResponse.simps)
  then show ?thesis unfolding run_noId by (simp del: getResponse.simps)
qed

section \<open>Index alignment of the accessors\<close>

lemma run_noId_built:
  "run [Watch (Some sensorNoId), Delegated 0 None] TelemetryController =
    Inr \<lparr>ids = [[]], response = [[] \<mapsto> 0], request = JObj [],
           pending = 1, metadatas = [JNum 3], interval = JNum 1000,
           refreshing = True, broadcasting = False,
           heap = [\<lparr>cname = ''N'', cdomainObject = sensorNoId,
                  metadata = JNum 3, cpending = 0, data = JObj []\<rparr>],
           timers = [Poll (JNum 1000)],
           fetches = [\<lparr>target = 0, trackPending = True, params = JObj [], batch = 0,
                  status = Outstanding\<rparr>],
           batches = Suc 0, lookups = [], broadcasts = 0, warnings = []\<rparr>"
  by (simp add: controller_defs sensorNoId_def)

lemma run_both:
  "run [Watch (Some sensorA), Delegated 0 (Some [sensorB])] TelemetryController =
    Inr \<lparr>ids = [''a'', ''b''], response = [''a'' \<mapsto> 0, ''b'' \<mapsto> 1], request = JObj [],
           pending = 2, metadatas = [JNum 1, JNum 2], interval = JNum 1000,
           refreshing = True, broadcasting = False,
           heap = [\<lparr>cname = ''A'', cdomainObject = sensorA,
                  metadata = JNum 1, cpending = 0, data = JObj []\<rparr>,
                 \<lparr>cname = ''B'', cdomainObject = sensorB,
                  metadata = JNum 2, cpending = 0, data = JObj []\<rparr>],
           timers = [Poll (JNum 1000)],
           fetches = [\<lparr>target = 0, trackPending = True, params = JObj [], batch = 0,
                  status = Outstanding\<rparr>,
                  \<lparr>target = 1, trackPending = True, params = JObj [], batch = 0,
                  status = Outstanding\<rparr>],
           batches = Suc 0, lookups = [], broadcasts = 0, warnings = []\<rparr>"
  by (simp add: controller_defs sensorA_def sensorB_def)

text \<open>
  In every state the controller can reach in which no tracked identifier is the empty
  string, \<^verbatim>\<open>getTelemetryObjects()\<close> returns, \<^verbatim>\<open>getResponse()\<close> returns an array
  (given two stack frames), both are as long as \<^verbatim>\<open>getMetadata()\<close> and the identifier
  list, and at every index the three hold the metadata, the domain object and the
  payload of the entry of the identifier at that index.
\<close>

lemma accessors_aligned:
  assumes "run es TelemetryController = Inr s" and "[] \<notin> set (ids s)"
  shows "\<exists>os ps.
     getTelemetryObjects s = Inr os \<and>
     getResponse (Suc (Suc n)) s (ArgVal JUndefined) = Inr (JArr ps) \<and>
     length (getMetadata s) = length (ids s) \<and>
     length os = length (ids s) \<and>
     length ps = length (ids s) \<and>
     (\<forall>i < length (ids s). \<exists>a c.
        entry s (ids s ! i) = Inr (a, c) \<and>
        getMetadata s ! i = metadata c \<and> os ! i = cdomainObject c \<and> ps ! i = data c)"
proof -
  from assms(1) have w: "wf s" using reachable_consistent by (auto simp: consistent_def)
  let ?c = "\<lambda>k. heap s ! the (response s k)"
  have m: "getMetadata s = map (\<lambda>k. metadata (?c k)) (ids s)"
    using w by (simp add: getMetadata_def wf_def)
  have t: "getTelemetryObjects s = Inr (map (\<lambda>k. cdomainObject (?c k)) (ids s))"
    unfolding getTelemetryObjects_def using wf_hasEntries [OF w] by (rule mapE_entry)
  have r: "getResponse (Suc (Suc n)) s (ArgVal JUndefined) = Inr (JArr (map (dataOf s) (ids s)))"
    using assms(2) by (rule getResponse_all) simp
  have "\<exists>a c. entry s (ids s ! i) = Inr (a, c) \<and>
        getMetadata s ! i = metadata c \<and>
        map (\<lambda>k. cdomainObject (?c k)) (ids s) ! i = cdomainObject c \<and>
        map (dataOf s) (ids s) ! i = data c"
    if i: "i < length (ids s)" for i
  proof -
    from i have "ids s ! i \<in> set (ids s)" by simp
    with w obtain a where a: "response s (ids s ! i) = Some a" "a < length (heap s)"
      by (auto simp: wf_def)
    then have "entry s (ids s ! i) = Inr (a, heap s ! a)" by (simp add: entry_def)
    moreover have "dataOf s (ids s ! i) = data (heap s ! a)" using a by (simp add: dataOf_def)
    ultimately show ?thesis using i a by (simp add: m)
  qed
  with m t r show ?thesis by (simp del: getResponse.simps)
qed

text \<open>
  Claim C4: at every observation point the sequences returned by \<^verbatim>\<open>getMetadata()\<close>,
  \<^verbatim>\<open>getTelemetryObjects()\<close> and \<^verbatim>\<open>getResponse()\<close> without argument have the same
  length and belong index by index to the same tracked entry, as the documentation of
  the three accessors says. The code breaks this when a tracked identifier is the empty
  string: the other two accessors return one element each, and \<^verbatim>\<open>getResponse()\<close>
  returns no sequence, it ends in a RangeError whatever the stack allows.
\<close>

theorem accessors_not_aligned:
  "\<exists>s. run [Watch (Some sensorNoId), Delegated 0 None] TelemetryController = Inr s \<and>
       getMetadata s = [JNum 3] \<and>
       getTelemetryObjects s = Inr [sensorNoId] \<and>
       (\<forall>n. getResponse n s (ArgVal JUndefined) = Inl RangeError)"
proof -
  let ?s = "\<lparr>ids = [[]], response = [[] \<mapsto> 0], request = JObj [],
           pending = 1, metadatas = [JNum 3], interval = JNum 1000,
           refreshing = True, broadcasting = False,
           heap = [\<lparr>cname = ''N'', cdomainObject = sensorNoId,
                  metadata = JNum 3, cpending = 0, data = JObj []\<rparr>],
           timers = [Poll (JNum 1000)],
           fetches = [\<lparr>target = 0, trackPending = True, params = JObj [], batch = 0,
                  status = Outstanding\<rparr>],
           batches = Suc 0, lookups = [], broadcasts = 0, warnings = []\<rparr>"
  have i: "[] \<in> set (ids ?s)" by simp
  have 1: "getResponse n ?s (ArgVal JUndefined) = Inl RangeError" for n
    using i by (rule getResponse_overflow) simp
  have 2: "getMetadata ?s = [JNum 3]" by (simp add: getMetadata_def)
  have 3: "getTelemetryObjects ?s = Inr [sensorNoId]"
    by (simp add: getTelemetryObjects_def entry_def)
  from 1 2 3 show ?thesis unfolding run_noId_built by (simp del: getResponse.simps)
qed

section \<open>Requests issued when the containers are rebuilt\<close>

lemma buildResponseContainers_fetches:
  assumes "wf s"
  shows "\<exists>s'. buildResponseContainers ds s = Inr s' \<and> ids s' = map getId ds \<and>
     fetches s' = fetches s @ (if truthy (request s) then issued (batches s) True s' (ids s') else []) \<and>
     pending s' = pending s +
       (if truthy (request s) then int (length (issued (batches s) True s' (ids s'))) else 0)"
proof (cases "truthy (request s)")
  case True
  let ?s3 = "(rebuilt ds s)\<lparr>batches := batches s + 1\<rparr>"
  let ?s' = "requested (batches s) True (map getId ds) ?s3"
  have "issued (batches s) True ?s' (map getId ds) = issued (batches s) True ?s3 (map getId ds)"
    by (rule issued_cong) (simp_all add: requested_fields)
  then show ?thesis
    using True
    by (simp add: buildResponseContainers_rebuilt [OF assms] requested_fields rebuilt_fields)
next
  case False
  then show ?thesis
    by (simp add: buildResponseContainers_rebuilt [OF assms] rebuilt_fields)
qed

text \<open>
  Claim C6, as amended. Entry (re)construction issues the tracked fetch across the new
  object set if and only if \<^verbatim>\<open>self.request\<close> is truthy: one promise, counted in the
  pending counter, for each new identifier whose entry has a telemetry capability.
  \<^verbatim>\<open>self.request\<close> starts as the empty object and \<^verbatim>\<open>requestData\<close> never stores a
  falsy value, so in every state the controller can reach it is truthy and the fetch
  is issued, also when no request has ever been made.
\<close>

theorem rebuild_requests:
  assumes "run es TelemetryController = Inr s"
  shows "truthy (request s) \<and>
    (\<exists>s'. buildResponseContainers ds s = Inr s' \<and> ids s' = map getId ds \<and>
       fetches s' = fetches s @ issued (batches s) True s' (ids s') \<and>
       pending s' = pending s + int (length (issued (batches s) True s' (ids s')))) \<and>
    (\<forall>t. wf t \<and> \<not> truthy (request t) \<longrightarrow>
       (\<exists>t'. buildResponseContainers ds t = Inr t' \<and> ids t' = map getId ds \<and>
          fetches t' = fetches t \<and> pending t' = pending t))"
proof -
  from assms have c: "consistent s" by (rule reachable_consistent)
  then have w: "wf s" and t: "truthy (request s)" by (simp_all add: consistent_def)
  have 2: "\<exists>s'. buildResponseContainers ds s = Inr s' \<and> ids s' = map getId ds \<and>
       fetches s' = fetches s @ issued (batches s) True s' (ids s') \<and>
       pending s' = pending s + int (length (issued (batches s) True s' (ids s')))"
    using buildResponseContainers_fetches [OF w, of ds] t by simp
  have 3: "\<exists>t'. buildResponseContainers ds t = Inr t' \<and> ids t' = map getId ds \<and>
          fetches t' = fetches t \<and> pending t' = pending t"
    if "wf t \<and> \<not> truthy (request t)" for t
    using buildResponseContainers_fetches [of t ds] that by simp
  from t 2 3 show ?thesis by blast
qed

theorem rebuild_requests_witness:
  "run [] TelemetryController = Inr TelemetryController \<and>
   truthy (request TelemetryController) \<and>
   (\<exists>s'. buildResponseContainers [sensorA] TelemetryController = Inr s' \<and>
      ids s' = [''a''] \<and>
      fetches s' = [\<lparr>target = 0, trackPending = True, params = JObj [], batch = 0,
                     status = Outstanding\<rparr>] \<and>
      pending s' = 1)"
proof -
  have r: "run [] TelemetryController = Inr TelemetryController" by simp
  from rebuild_requests [OF r, of "[sensorA]"]
  obtain s' where s': "buildResponseContainers [sensorA] TelemetryController = Inr s'"
    and t: "truthy (request TelemetryController)" by blast
  from s' have "ids s' = [''a''] \<and>
      fetches s' = [\<lparr>target = 0, trackPending = True, params = JObj [], batch = 0,
                     status = Outstanding\<rparr>] \<and> pending s' = 1"
    by (auto simp: controller_defs sensorA_def)
  with r s' t show ?thesis by blast
qed

text \<open>
  Claim C6 as stated fails: no request was ever made, and the reconstruction for
  \<open>sensorA\<close> issues a tracked fetch.
\<close>

theorem rebuild_requests_without_request:
  "\<exists>s. run [Watch (Some sensorA), Delegated 0 None] TelemetryController = Inr s \<and>
       \<not> isRequestData (Watch (Some sensorA)) \<and> \<not> isRequestData (Delegated 0 None) \<and>
       fetches s = [\<lparr>target = 0, trackPending = True, params = JObj [], batch = 0,
                     status = Outstanding\<rparr>] \<and>
       pending s = 1"
  by (simp add: controller_defs sensorA_def)

section \<open>Polling from construction\<close>

lemma set_removeAt: "set (removeAt i xs) \<subseteq> set xs"
  unfolding removeAt_def using set_take_subset [of i xs] set_drop_subset [of "Suc i" xs] by auto

lemma effect_defaults:
  assumes "defaults s" "\<not> isRequestData e" "\<not> isSetRefreshInterval e"
  shows "defaults (effect e s)"
proof (cases e)
  case (Timeout i)
  show ?thesis
  proof (cases "i < length (timers s)")
    case True
    have "set (removeAt i (timers s)) \<subseteq> set (timers s)" by (rule set_removeAt)
    with assms(1) have "\<forall>t \<in> set (removeAt i (timers s)). isPoll t \<longrightarrow> t = Poll (JNum 1000)"
      by (auto simp: defaults_def)
    with assms(1) True Timeout show ?thesis
      by (cases "timers s ! i")
         (auto simp: defaults_def Let_def broadcastCallback_def startTimeout_def requested_fields)
  next
    case False
    with assms Timeout show ?thesis by simp
  qed
next
  case (Fulfil i v)
  with assms show ?thesis
    by (auto simp: defaults_def storeData_fields isPoll_def)
qed (use assms in \<open>auto simp: defaults_def Let_def requested_fields rebuilt_fields\<close>)

lemma run_defaults:
  assumes "consistent s" "defaults s" "\<forall>e \<in> set es. \<not> isRequestData e \<and> \<not> isSetRefreshInterval e"
    "run es s = Inr s'"
  shows "defaults s'"
  using assms
proof (induction es arbitrary: s)
  case Nil
  then show ?case by simp
next
  case (Cons e es)
  from Cons.prems(1) have w: "wf s" by (simp add: consistent_def)
  from step_consistent [OF Cons.prems(1), of e] have c: "consistent (effect e s)"
    by (simp add: step_effect [OF w])
  have d: "defaults (effect e s)" using Cons.prems(2,3) by (auto intro: effect_defaults)
  from Cons.prems(4) have "run es (effect e s) = Inr s'" by (simp add: step_effect [OF w])
  with Cons.IH [OF c d] Cons.prems(3) show ?case by simp
qed

lemma defaults_initial: "defaults TelemetryController"
  by (simp add: defaults_def TelemetryController_def selfInitial_def startTimeout_def)

text \<open>
  Claim C9. The constructed controller has the interval 1000, the empty object as
  request parameters and one poll timer of 1000 ms waiting. As long as neither
  \<^verbatim>\<open>requestData\<close> nor \<^verbatim>\<open>setRefreshInterval\<close> has been called, the request is the
  empty object, a poll timer of 1000 ms is waiting, and when a poll timer fires
  \<^verbatim>\<open>requestTelemetryForId\<close> runs for every tracked identifier: one untracked fetch
  with the empty object as parameters is issued where the entry has a telemetry
  capability, a warning is logged where it has none, and the pending counter is
  unchanged.
\<close>

theorem polling_from_construction:
  "interval TelemetryController = JNum 1000 \<and>
   request TelemetryController = JObj [] \<and>
   timers TelemetryController = [Poll (JNum 1000)] \<and>
   (\<forall>es s. run es TelemetryController = Inr s \<and>
      (\<forall>e \<in> set es. \<not> isRequestData e \<and> \<not> isSetRefreshInterval e) \<longrightarrow>
      request s = JObj [] \<and>
      (\<exists>i < length (timers s). timers s ! i = Poll (JNum 1000)) \<and>
      (\<forall>i d. i < length (timers s) \<and> timers s ! i = Poll d \<longrightarrow>
         (\<exists>s'. step (Timeout i) s = Inr s' \<and>
            fetches s' = fetches s @
              map (\<lambda>k. \<lparr>target = the (response s k), trackPending = False, params = JObj [],
                        batch = batches s, status = Outstanding\<rparr>)
                (filter (hasTelemetry s) (ids s)) \<and>
            warnings s' = warnings s @
              map warnNoRequest (filter (\<lambda>k. \<not> hasTelemetry s k) (ids s)) \<and>
            pending s' = pending s)))"
proof (intro conjI allI impI)
  show "interval TelemetryController = JNum 1000" "request TelemetryController = JObj []"
    "timers TelemetryController = [Poll (JNum 1000)]"
    by (simp_all add: TelemetryController_def selfInitial_def startTimeout_def)
next
  fix es s
  assume a: "run es TelemetryController = Inr s \<and>
      (\<forall>e \<in> set es. \<not> isRequestData e \<and> \<not> isSetRefreshInterval e)"
  then have c: "consistent s" using reachable_consistent by blast
  have d: "defaults s"
    using consistent_initial defaults_initial _ conjunct1 [OF a]
    by (rule run_defaults) (use a in simp)
  from d show "request s = JObj []" by (simp add: defaults_def)
  from c d have "length (filter isPoll (timers s)) = 1"
    by (simp add: consistent_def tinv_def defaults_def)
  then have "filter isPoll (timers s) \<noteq> []" by auto
  then obtain t where t: "t \<in> set (timers s)" "isPoll t" by (auto simp: filter_empty_conv)
  with d have "t = Poll (JNum 1000)" by (simp add: defaults_def)
  with t(1) show "\<exists>i < length (timers s). timers s ! i = Poll (JNum 1000)"
    by (auto simp: in_set_conv_nth)
next
  fix es s i d
  assume a: "run es TelemetryController = Inr s \<and>
      (\<forall>e \<in> set es. \<not> isRequestData e \<and> \<not> isSetRefreshInterval e)"
    and i: "i < length (timers s) \<and> timers s ! i = Poll d"
  from a have c: "consistent s" using reachable_consistent by blast
  then have w: "wf s" by (simp add: consistent_def)
  have df: "defaults s"
    using consistent_initial defaults_initial _ conjunct1 [OF a]
    by (rule run_defaults) (use a in simp)
  let ?s1 = "s\<lparr>timers := removeAt i (timers s), batches := batches s + 1\<rparr>"
  have "issued (batches s) False ?s1 (ids s) =
      map (\<lambda>k. \<lparr>target = the (response s k), trackPending = False, params = JObj [],
                batch = batches s, status = Outstanding\<rparr>) (filter (hasTelemetry s) (ids s))"
    using df hasTelemetry_cong [of ?s1 s] by (simp add: issued_def defaults_def)
  moreover have "hasTelemetry ?s1 = hasTelemetry s"
    by (rule hasTelemetry_cong) simp_all
  ultimately show "\<exists>s'. step (Timeout i) s = Inr s' \<and>
            fetches s' = fetches s @
              map (\<lambda>k. \<lparr>target = the (response s k), trackPending = False, params = JObj [],
                        batch = batches s, status = Outstanding\<rparr>)
                (filter (hasTelemetry s) (ids s)) \<and>
            warnings s' = warnings s @
              map warnNoRequest (filter (\<lambda>k. \<not> hasTelemetry s k) (ids s)) \<and>
            pending s' = pending s"
    using i df
    by (simp add: step_effect [OF w] Let_def startTimeout_def requested_fields requested_def
        defaults_def)
qed

lemma run_built:
  "run [Watch (Some sensorA), Delegated 0 None] TelemetryController =
    Inr \<lparr>ids = [''a''], response = [''a'' \<mapsto> 0], request = JObj [],
           pending = 1, metadatas = [JNum 1], interval = JNum 1000,
           refreshing = True, broadcasting = False,
           heap = [\<lparr>cname = ''A'', cdomainObject = sensorA,
                  metadata = JNum 1, cpending = 0, data = JObj []\<rparr>],
           timers = [Poll (JNum 1000)],
           fetches = [\<lparr>target = 0, trackPending = True, params = JObj [], batch = 0,
                  status = Outstanding\<rparr>],
           batches = Suc 0, lookups = [], broadcasts = 0, warnings = []\<rparr>"
  by (simp add: controller_defs sensorA_def)

theorem polling_from_construction_witness:
  "\<exists>s s'. run [Watch (Some sensorA), Delegated 0 None] TelemetryController = Inr s \<and>
     \<not> isRequestData (Watch (Some sensorA)) \<and> \<not> isSetRefreshInterval (Delegated 0 None) \<and>
     timers s ! 0 = Poll (JNum 1000) \<and>
     step (Timeout 0) s = Inr s' \<and>
     fetches s' =
       [\<lparr>target = 0, trackPending = True, params = JObj [], batch = 0, status = Outstanding\<rparr>,
        \<lparr>target = 0, trackPending = False, params = JObj [], batch = 1, status = Outstanding\<rparr>] \<and>
     pending s' = pending s"
proof -
  let ?es = "[Watch (Some sensorA), Delegated 0 None]"
  let ?s = "\<lparr>ids = [''a''], response = [''a'' \<mapsto> 0], request = JObj [],
           pending = 1, metadatas = [JNum 1], interval = JNum 1000,
           refreshing = True, broadcasting = False,
           heap = [\<lparr>cname = ''A'', cdomainObject = sensorA,
                  metadata = JNum 1, cpending = 0, data = JObj []\<rparr>],
           timers = [Poll (JNum 1000)],
           fetches = [\<lparr>target = 0, trackPending = True, params = JObj [], batch = 0,
                  status = Outstanding\<rparr>],
           batches = Suc 0, lookups = [], broadcasts = 0, warnings = []\<rparr>"
  have e: "\<forall>e \<in> set ?es. \<not> isRequestData e \<and> \<not> isSetRefreshInterval e" by simp
  have t: "0 < length (timers ?s) \<and> timers ?s ! 0 = Poll (JNum 1000)" by simp
  have h: "filter (hasTelemetry ?s) (ids ?s) = [''a'']"
    by (simp add: hasTelemetry_def sensorA_def)
  from polling_from_construction run_built e t
  have "\<exists>s'. step (Timeout 0) ?s = Inr s' \<and>
            fetches s' = fetches ?s @
              map (\<lambda>k. \<lparr>target = the (response ?s k), trackPending = False, params = JObj [],
                        batch = batches ?s, status = Outstanding\<rparr>)
                (filter (hasTelemetry ?s) (ids ?s)) \<and>
            pending s' = pending ?s"
    by blast
  then obtain s' where "step (Timeout 0) ?s = Inr s'"
    "fetches s' =
       [\<lparr>target = 0, trackPending = True, params = JObj [], batch = 0, status = Outstanding\<rparr>,
        \<lparr>target = 0, trackPending = False, params = JObj [], batch = 1, status = Outstanding\<rparr>]"
    "pending s' = pending ?s"
    unfolding h by auto
  then show ?thesis unfolding run_built by (intro exI [of _ ?s] exI [of _ s']) simp
qed

section \<open>The debounced broadcast\<close>

lemma effect_settlement:
  assumes "isSettlement e"
  shows "broadcasts (effect e s) = broadcasts s \<and> (broadcasting s \<longrightarrow> broadcasting (effect e s))"
  using assms by (cases e) (simp_all add: storeData_fields)

lemma run_settlements:
  assumes "consistent s" "\<forall>e \<in> set es. isSettlement e" "run es s = Inr s'"
  shows "broadcasts s' = broadcasts s \<and> (broadcasting s \<longrightarrow> broadcasting s')"
  using assms
proof (induction es arbitrary: s)
  case Nil
  then show ?case by simp
next
  case (Cons e es)
  from Cons.prems(1) have w: "wf s" by (simp add: consistent_def)
  from step_consistent [OF Cons.prems(1), of e] have c: "consistent (effect e s)"
    by (simp add: step_effect [OF w])
  from Cons.prems(3) have r: "run es (effect e s) = Inr s'" by (simp add: step_effect [OF w])
  from Cons.prems(2) have "isSettlement e" "\<forall>e \<in> set es. isSettlement e" by simp_all
  with Cons.IH [OF c _ r] effect_settlement [of e s] show ?case by simp
qed

lemma run_consistent_result: "consistent s \<Longrightarrow> run es s = Inr s' \<Longrightarrow> consistent s'"
  using run_consistent [of s es] by auto

text \<open>
  Claim C7, as amended. Take a turn made of settlements of telemetry promises in which
  at least one promise is fulfilled, that is, \<^verbatim>\<open>storeData\<close> runs at least once. During
  the turn no \<^verbatim>\<open>telemetryUpdate\<close> is broadcast, and after it exactly one broadcast
  callback waits in \<^verbatim>\<open>$timeout\<close>, however many promises were fulfilled. When that
  callback runs, in a later turn, it clears the flag and broadcasts once, and no
  broadcast callback is left. The rejection of a promise schedules and broadcasts
  nothing.
\<close>

theorem broadcast_coalesced:
  assumes "run es TelemetryController = Inr s"
    and "\<forall>e \<in> set (before @ after). isSettlement e"
    and "run before s = Inr sa"
    and "i < length (fetches sa)" and "status (fetches sa ! i) = Outstanding"
    and "run (before @ Fulfil i v # after) s = Inr s'"
  shows "broadcasts s' = broadcasts s \<and>
         length (filter (\<lambda>t. t = Broadcast) (timers s')) = 1 \<and>
         (\<forall>j. j < length (timers s') \<and> timers s' ! j = Broadcast \<longrightarrow>
            (\<exists>s''. step (Timeout j) s' = Inr s'' \<and> broadcasts s'' = broadcasts s + 1 \<and>
               \<not> broadcasting s'' \<and> Broadcast \<notin> set (timers s''))) \<and>
         (\<forall>j. \<exists>t. step (Reject j) s = Inr t \<and> timers t = timers s \<and>
               broadcasting t = broadcasting s \<and> broadcasts t = broadcasts s)"
proof -
  from assms(1) have c: "consistent s" by (rule reachable_consistent)
  from c assms(3) have ca: "consistent sa" by (rule run_consistent_result)
  then have wa: "wf sa" by (simp add: consistent_def)
  let ?sb = "effect (Fulfil i v) sa"
  from step_consistent [OF ca, of "Fulfil i v"] have cb: "consistent ?sb"
    by (simp add: step_effect [OF wa] del: effect.simps)
  from assms(6) have rb: "run after ?sb = Inr s'"
    by (simp add: run_append assms(3) step_effect [OF wa] del: effect.simps)
  from cb rb have c': "consistent s'" by (rule run_consistent_result)
  then have w': "wf s'" by (simp add: consistent_def)
  have 1: "broadcasts sa = broadcasts s"
    using run_settlements [OF c _ assms(3)] assms(2) by simp
  have 2: "broadcasts ?sb = broadcasts sa" "broadcasting ?sb"
    using assms(4,5) by (simp_all add: storeData_fields)
  have 3: "broadcasts s' = broadcasts ?sb" "broadcasting s'"
    using run_settlements [OF cb _ rb] assms(2) 2(2) by simp_all
  from 1 2 3 have b: "broadcasts s' = broadcasts s" by simp
  from c' 3(2) have n: "length (filter (\<lambda>t. t = Broadcast) (timers s')) = 1"
    by (simp add: consistent_def tinv_def)
  have t: "\<exists>s''. step (Timeout j) s' = Inr s'' \<and> broadcasts s'' = broadcasts s + 1 \<and>
               \<not> broadcasting s'' \<and> Broadcast \<notin> set (timers s'')"
    if j: "j < length (timers s') \<and> timers s' ! j = Broadcast" for j
  proof -
    let ?t = "broadcastCallback (s'\<lparr>timers := removeAt j (timers s')\<rparr>)"
    have e: "effect (Timeout j) s' = ?t" using j by (simp add: Let_def)
    from step_consistent [OF c', of "Timeout j"] have "consistent ?t"
      by (simp add: step_effect [OF w'] e del: effect.simps)
    then have "tinv ?t" by (simp add: consistent_def)
    moreover have "\<not> broadcasting ?t" by (simp add: broadcastCallback_def)
    ultimately have "filter (\<lambda>t. t = Broadcast) (timers ?t) = []" by (simp add: tinv_def)
    then have "Broadcast \<notin> set (timers ?t)" by (auto simp: filter_empty_conv)
    moreover have "broadcasts ?t = broadcasts s + 1" using b by (simp add: broadcastCallback_def)
    moreover have "\<not> broadcasting ?t" by (simp add: broadcastCallback_def)
    ultimately show ?thesis
      by (simp add: step_effect [OF w'] e del: effect.simps)
  qed
  have r: "\<exists>t. step (Reject j) s = Inr t \<and> timers t = timers s \<and>
               broadcasting t = broadcasting s \<and> broadcasts t = broadcasts s" for j
    by simp
  from b n t r show ?thesis by blast
qed

lemma run_two_fulfilled:
  "run [Fulfil 0 (JNum 5), Fulfil 1 (JNum 6)]
     \<lparr>ids = [''a'', ''b''], response = [''a'' \<mapsto> 0, ''b'' \<mapsto> 1], request = JObj [],
           pending = 2, metadatas = [JNum 1, JNum 2], interval = JNum 1000,
           refreshing = True, broadcasting = False,
           heap = [\<lparr>cname = ''A'', cdomainObject = sensorA,
                  metadata = JNum 1, cpending = 0, data = JObj []\<rparr>,
                 \<lparr>cname = ''B'', cdomainObject = sensorB,
                  metadata = JNum 2, cpending = 0, data = JObj []\<rparr>],
           timers = [Poll (JNum 1000)],
           fetches = [\<lparr>target = 0, trackPending = True, params = JObj [], batch = 0,
                  status = Outstanding\<rparr>,
                  \<lparr>target = 1, trackPending = True, params = JObj [], batch = 0,
                  status = Outstanding\<rparr>],
           batches = Suc 0, lookups = [], broadcasts = 0, warnings = []\<rparr> =
   Inr \<lparr>ids = [''a'', ''b''], response = [''a'' \<mapsto> 0, ''b'' \<mapsto> 1], request = JObj [],
           pending = 0, metadatas = [JNum 1, JNum 2], interval = JNum 1000,
           refreshing = True, broadcasting = True,
           heap = [\<lparr>cname = ''A'', cdomainObject = sensorA,
                  metadata = JNum 1, cpending = 0, data = JNum 5\<rparr>,
                 \<lparr>cname = ''B'', cdomainObject = sensorB,
                  metadata = JNum 2, cpending = 0, data = JNum 6\<rparr>],
           timers = [Poll (JNum 1000), Broadcast],
           fetches = [\<lparr>target = 0, trackPending = True, params = JObj [], batch = 0,
                  status = Fulfilled\<rparr>,
                  \<lparr>target = 1, trackPending = True, params = JObj [], batch = 0,
                  status = Fulfilled\<rparr>],
           batches = Suc 0, lookups = [], broadcasts = 0, warnings = []\<rparr>"
  by (simp add: controller_defs)

theorem broadcast_coalesced_witness:
  "\<exists>s s' s''.
     run [Watch (Some sensorA), Delegated 0 (Some [sensorB])] TelemetryController = Inr s \<and>
     isSettlement (Fulfil 1 (JNum 6)) \<and>
     run [] s = Inr s \<and> 0 < length (fetches s) \<and> status (fetches s ! 0) = Outstanding \<and>
     run ([] @ Fulfil 0 (JNum 5) # [Fulfil 1 (JNum 6)]) s = Inr s' \<and>
     broadcasts s' = broadcasts s \<and>
     timers s' = [Poll (JNum 1000), Broadcast] \<and>
     step (Timeout 1) s' = Inr s'' \<and> broadcasts s'' = broadcasts s + 1 \<and>
     \<not> broadcasting s'' \<and> Broadcast \<notin> set (timers s'')"
proof -
  let ?s = "\<lparr>ids = [''a'', ''b''], response = [''a'' \<mapsto> 0, ''b'' \<mapsto> 1], request = JObj [],
           pending = 2, metadatas = [JNum 1, JNum 2], interval = JNum 1000,
           refreshing = True, broadcasting = False,
           heap = [\<lparr>cname = ''A'', cdomainObject = sensorA,
                  metadata = JNum 1, cpending = 0, data = JObj []\<rparr>,
                 \<lparr>cname = ''B'', cdomainObject = sensorB,
                  metadata = JNum 2, cpending = 0, data = JObj []\<rparr>],
           timers = [Poll (JNum 1000)],
           fetches = [\<lparr>target = 0, trackPending = True, params = JObj [], batch = 0,
                  status = Outstanding\<rparr>,
                  \<lparr>target = 1, trackPending = True, params = JObj [], batch = 0,
                  status = Outstanding\<rparr>],
           batches = Suc 0, lookups = [], broadcasts = 0, warnings = []\<rparr>"
  let ?s' = "\<lparr>ids = [''a'', ''b''], response = [''a'' \<mapsto> 0, ''b'' \<mapsto> 1], request = JObj [],
           pending = 0, metadatas = [JNum 1, JNum 2], interval = JNum 1000,
           refreshing = True, broadcasting = True,
           heap = [\<lparr>cname = ''A'', cdomainObject = sensorA,
                  metadata = JNum 1, cpending = 0, data = JNum 5\<rparr>,
                 \<lparr>cname = ''B'', cdomainObject = sensorB,
                  metadata = JNum 2, cpending = 0, data = JNum 6\<rparr>],
           timers = [Poll (JNum 1000), Broadcast],
           fetches = [\<lparr>target = 0, trackPending = True, params = JObj [], batch = 0,
                  status = Fulfilled\<rparr>,
                  \<lparr>target = 1, trackPending = True, params = JObj [], batch = 0,
                  status = Fulfilled\<rparr>],
           batches = Suc 0, lookups = [], broadcasts = 0, warnings = []\<rparr>"
  have a: "\<forall>e \<in> set ([] @ [Fulfil 1 (JNum 6)]). isSettlement e" by simp
  have b: "run [] ?s = Inr ?s" by simp
  have f: "0 < length (fetches ?s)" "status (fetches ?s ! 0) = Outstanding" by simp_all
  have r: "run ([] @ Fulfil 0 (JNum 5) # [Fulfil 1 (JNum 6)]) ?s = Inr ?s'"
    using run_two_fulfilled by simp
  have j: "1 < length (timers ?s') \<and> timers ?s' ! 1 = Broadcast" by simp
  from broadcast_coalesced [OF run_both a b f r] j
  obtain s'' where "step (Timeout 1) ?s' = Inr s''" "broadcasts s'' = broadcasts ?s + 1"
    "\<not> broadcasting s''" "Broadcast \<notin> set (timers s'')" by blast
  with b f r show ?thesis unfolding run_both
    by (intro exI [of _ ?s] exI [of _ ?s'] exI [of _ s'']) simp
qed

text \<open>
  Claim C7 as stated fails for a turn whose only settlement is a rejection: no
  broadcast is scheduled and none has been emitted.
\<close>

theorem rejection_not_broadcast:
  "\<exists>s. run [Watch (Some sensorA), Delegated 0 None, Reject 0] TelemetryController = Inr s \<and>
       isSettlement (Reject 0) \<and>
       status (fetches s ! 0) = Rejected \<and>
       Broadcast \<notin> set (timers s) \<and> \<not> broadcasting s \<and> broadcasts s = 0"
  by (simp add: controller_defs sensorA_def)

section \<open>Changing the refresh interval\<close>

lemma filter_removeAt:
  assumes "i < length xs" "\<not> P (xs ! i)"
  shows "filter P (removeAt i xs) = filter P xs"
proof -
  have "filter P xs = filter P (take i xs @ xs ! i # drop (Suc i) xs)"
    using assms(1) by (simp only: id_take_nth_drop [symmetric])
  with assms(2) show ?thesis by (simp add: removeAt_def)
qed

lemma effect_waiting:
  assumes "refreshing s" "\<not> firesPoll e s"
  shows "filter isPoll (timers (effect e s)) = filter isPoll (timers s) \<and> refreshing (effect e s)"
proof (cases e)
  case (Timeout j)
  show ?thesis
  proof (cases "j < length (timers s)")
    case True
    with assms(2) Timeout have n: "\<not> isPoll (timers s ! j)" by (simp add: firesPoll_def)
    then have b: "timers s ! j = Broadcast" by (cases "timers s ! j") (simp_all add: isPoll_def)
    from True n have "filter isPoll (removeAt j (timers s)) = filter isPoll (timers s)"
      by (rule filter_removeAt)
    with assms(1) True Timeout b show ?thesis by (simp add: Let_def broadcastCallback_def)
  next
    case False
    with assms Timeout show ?thesis by simp
  qed
next
  case (Fulfil i v)
  with assms show ?thesis by (simp add: storeData_fields isPoll_def)
qed (use assms in \<open>auto simp: Let_def requested_fields rebuilt_fields setRefreshInterval_def startTimeout_def\<close>)

lemma effect_halted:
  assumes "halted s" "\<not> isSetRefreshInterval e"
  shows "halted (effect e s)"
proof (cases e)
  case (Timeout j)
  show ?thesis
  proof (cases "j < length (timers s)")
    case True
    then have "timers s ! j \<in> set (timers s)" by simp
    with assms(1) have n: "\<not> isPoll (timers s ! j)" by (auto simp: halted_def filter_empty_conv)
    then have b: "timers s ! j = Broadcast" by (cases "timers s ! j") (simp_all add: isPoll_def)
    from True n have "filter isPoll (removeAt j (timers s)) = filter isPoll (timers s)"
      by (rule filter_removeAt)
    with assms(1) True Timeout b show ?thesis
      by (simp add: halted_def Let_def broadcastCallback_def)
  next
    case False
    with assms Timeout show ?thesis by simp
  qed
next
  case (Fulfil i v)
  with assms show ?thesis by (simp add: halted_def storeData_fields isPoll_def)
qed (use assms in \<open>auto simp: halted_def Let_def requested_fields rebuilt_fields\<close>)

lemma run_halted:
  assumes "consistent s" "halted s" "\<forall>e \<in> set es. \<not> isSetRefreshInterval e"
  shows "\<exists>s'. run es s = Inr s' \<and> halted s'"
  using assms
proof (induction es arbitrary: s)
  case Nil
  then show ?case by simp
next
  case (Cons e es)
  from Cons.prems(1) have w: "wf s" by (simp add: consistent_def)
  from step_consistent [OF Cons.prems(1), of e] have c: "consistent (effect e s)"
    by (simp add: step_effect [OF w])
  have h: "halted (effect e s)" using Cons.prems(2,3) by (auto intro: effect_halted)
  from Cons.IH [OF c h] Cons.prems(3) show ?case by (simp add: step_effect [OF w])
qed

lemma effect_poll_fires:
  assumes "tinv s" "j < length (timers s)" "timers s ! j = Poll d0"
  shows "filter isPoll (timers (effect (Timeout j) s)) =
           (if interval s = JUndefined then [] else [Poll (interval s)]) \<and>
         refreshing (effect (Timeout j) s) = (interval s \<noteq> JUndefined) \<and>
         interval (effect (Timeout j) s) = interval s"
proof -
  have "tinv (s\<lparr>timers := removeAt j (timers s), refreshing := False\<rparr>)"
    using assms by (rule tinv_Timeout(2))
  then have "filter isPoll (removeAt j (timers s)) = []" by (simp add: tinv_def)
  with assms(2,3) show ?thesis
    by (simp add: Let_def startTimeout_def requested_fields isPoll_def)
qed

text \<open>
  Claim C8. Take a state the controller can reach in which a poll wait is outstanding
  (\<^verbatim>\<open>self.refreshing\<close> is set). Then \<^verbatim>\<open>setRefreshInterval\<close> stores the new interval
  and leaves the \<^verbatim>\<open>$timeout\<close> queue as it is, and so does every other turn in which
  no poll timer fires: the waiting poll timer stays, with the delay it was registered
  with. When a poll timer fires, the next wait is registered with the interval stored
  at that moment; if that interval is \<^verbatim>\<open>undefined\<close> no wait is registered, and none
  will be for as long as \<^verbatim>\<open>setRefreshInterval\<close> is not called again.
\<close>

theorem refresh_interval_change:
  assumes "run es TelemetryController = Inr s" and "refreshing s"
  shows "timers (setRefreshInterval d s) = timers s \<and>
         interval (setRefreshInterval d s) = d \<and>
         refreshing (setRefreshInterval d s) \<and>
         (\<exists>j d0. j < length (timers s) \<and> timers s ! j = Poll d0 \<and>
                 filter isPoll (timers s) = [Poll d0]) \<and>
         (\<forall>e. \<not> firesPoll e s \<longrightarrow>
            (\<exists>s'. step e s = Inr s' \<and> filter isPoll (timers s') = filter isPoll (timers s) \<and>
                  refreshing s')) \<and>
         (\<forall>j d0. j < length (timers s) \<and> timers s ! j = Poll d0 \<longrightarrow>
            (\<exists>s'. step (Timeout j) s = Inr s' \<and>
               filter isPoll (timers s') =
                 (if interval s = JUndefined then [] else [Poll (interval s)]) \<and>
               refreshing s' = (interval s \<noteq> JUndefined) \<and>
               (interval s = JUndefined \<longrightarrow>
                  (\<forall>es'. (\<forall>e \<in> set es'. \<not> isSetRefreshInterval e) \<longrightarrow>
                     (\<exists>s''. run es' s' = Inr s'' \<and> filter isPoll (timers s'') = [] \<and>
                            \<not> refreshing s'')))))"
proof -
  from assms(1) have c: "consistent s" by (rule reachable_consistent)
  then have w: "wf s" and t: "tinv s" by (simp_all add: consistent_def)
  have 1: "timers (setRefreshInterval d s) = timers s" "interval (setRefreshInterval d s) = d"
    "refreshing (setRefreshInterval d s)"
    using assms(2) by (simp_all add: setRefreshInterval_def startTimeout_def)
  have 2: "\<exists>j d0. j < length (timers s) \<and> timers s ! j = Poll d0 \<and>
                 filter isPoll (timers s) = [Poll d0]"
  proof -
    from t assms(2) have "length (filter isPoll (timers s)) = 1" by (simp add: tinv_def)
    then obtain p where p: "filter isPoll (timers s) = [p]"
      by (auto simp: length_Suc_conv)
    then have "p \<in> set (filter isPoll (timers s))" by simp
    then have m: "p \<in> set (timers s)" and q: "isPoll p" by simp_all
    from m obtain j where j: "j < length (timers s)" "timers s ! j = p"
      by (auto simp: in_set_conv_nth)
    from q obtain d0 where "p = Poll d0" by (cases p) (simp_all add: isPoll_def)
    with p j show ?thesis by auto
  qed
  have 3: "\<exists>s'. step e s = Inr s' \<and> filter isPoll (timers s') = filter isPoll (timers s) \<and>
                  refreshing s'"
    if "\<not> firesPoll e s" for e
    using effect_waiting [OF assms(2) that] by (simp add: step_effect [OF w] del: effect.simps)
  have 4: "\<exists>s'. step (Timeout j) s = Inr s' \<and>
               filter isPoll (timers s') =
                 (if interval s = JUndefined then [] else [Poll (interval s)]) \<and>
               refreshing s' = (interval s \<noteq> JUndefined) \<and>
               (interval s = JUndefined \<longrightarrow>
                  (\<forall>es'. (\<forall>e \<in> set es'. \<not> isSetRefreshInterval e) \<longrightarrow>
                     (\<exists>s''. run es' s' = Inr s'' \<and> filter isPoll (timers s'') = [] \<and>
                            \<not> refreshing s'')))"
    if j: "j < length (timers s) \<and> timers s ! j = Poll d0" for j d0
  proof -
    let ?s' = "effect (Timeout j) s"
    from j have f: "filter isPoll (timers ?s') =
           (if interval s = JUndefined then [] else [Poll (interval s)])"
      "refreshing ?s' = (interval s \<noteq> JUndefined)" "interval ?s' = interval s"
      using effect_poll_fires [OF t, of j d0] by blast+
    from step_consistent [OF c, of "Timeout j"] have c': "consistent ?s'"
      by (simp add: step_effect [OF w] del: effect.simps)
    have "\<exists>s''. run es' ?s' = Inr s'' \<and> filter isPoll (timers s'') = [] \<and> \<not> refreshing s''"
      if u: "interval s = JUndefined" and n: "\<forall>e \<in> set es'. \<not> isSetRefreshInterval e" for es'
    proof -
      from f u have "halted ?s'" by (simp add: halted_def)
      from run_halted [OF c' this n] show ?thesis by (auto simp: halted_def)
    qed
    with f show ?thesis by (simp add: step_effect [OF w] del: effect.simps)
  qed
  from 1 2 3 4 show ?thesis by blast
qed

theorem refresh_interval_change_witness:
  "\<exists>s s'. run [] TelemetryController = Inr TelemetryController \<and>
     refreshing TelemetryController \<and>
     s = setRefreshInterval JUndefined TelemetryController \<and>
     timers s = [Poll (JNum 1000)] \<and> interval s = JUndefined \<and> refreshing s \<and>
     step (Timeout 0) s = Inr s' \<and> timers s' = [] \<and> \<not> refreshing s'"
proof -
  let ?s = "setRefreshInterval JUndefined TelemetryController"
  have r: "run [] TelemetryController = Inr TelemetryController" by simp
  have f: "refreshing TelemetryController"
    by (simp add: TelemetryController_def selfInitial_def startTimeout_def)
  have t: "timers TelemetryController = [Poll (JNum 1000)]"
    by (simp add: TelemetryController_def selfInitial_def startTimeout_def)
  from refresh_interval_change [OF r f, of JUndefined] t
  have 1: "timers ?s = [Poll (JNum 1000)]" "interval ?s = JUndefined" "refreshing ?s"
    by simp_all
  have "step (Timeout 0) ?s = Inr (?s\<lparr>timers := [], refreshing := False, batches := 1\<rparr>)"
    by (simp add: controller_defs)
  with r f 1 show ?thesis by simp
qed

section \<open>The completion signal of requestData\<close>

lemma issued_shape:
  "\<forall>f \<in> set (issued b track s ks). batch f = b \<and> status f = Outstanding \<and> trackPending f = track"
  by (auto simp: issued_def)

lemma grown_refl: "grown s s"
  by (simp add: grown_def)

lemma grown_trans:
  assumes "grown a b" "grown b c"
  shows "grown a c"
proof -
  have 1: "length (fetches a) \<le> length (fetches c)" "batches a \<le> batches c"
    using assms by (simp_all add: grown_def)
  have 2: "fetches c ! j = (fetches a ! j)\<lparr>status := status (fetches c ! j)\<rparr> \<and>
        (status (fetches a ! j) \<noteq> Outstanding \<longrightarrow> status (fetches c ! j) = status (fetches a ! j))"
    if j: "j < length (fetches a)" for j
  proof -
    from j assms(1) have jb: "j < length (fetches b)" by (simp add: grown_def)
    from j assms(1) have ab: "fetches b ! j = (fetches a ! j)\<lparr>status := status (fetches b ! j)\<rparr>"
      "status (fetches a ! j) \<noteq> Outstanding \<longrightarrow> status (fetches b ! j) = status (fetches a ! j)"
      by (simp_all add: grown_def)
    from jb assms(2) have bc: "fetches c ! j = (fetches b ! j)\<lparr>status := status (fetches c ! j)\<rparr>"
      "status (fetches b ! j) \<noteq> Outstanding \<longrightarrow> status (fetches c ! j) = status (fetches b ! j)"
      by (simp_all add: grown_def)
    have "fetches c ! j = ((fetches a ! j)\<lparr>status := status (fetches b ! j)\<rparr>)\<lparr>status := status (fetches c ! j)\<rparr>"
      using ab(1) bc(1) by simp
    then have "fetches c ! j = (fetches a ! j)\<lparr>status := status (fetches c ! j)\<rparr>" by simp
    moreover have "status (fetches a ! j) \<noteq> Outstanding \<longrightarrow> status (fetches c ! j) = status (fetches a ! j)"
      using ab(2) bc(2) by auto
    ultimately show ?thesis by blast
  qed
  have 3: "batches a \<le> batch (fetches c ! j)"
    if j: "length (fetches a) \<le> j \<and> j < length (fetches c)" for j
  proof (cases "j < length (fetches b)")
    case True
    with assms(2) have "fetches c ! j = (fetches b ! j)\<lparr>status := status (fetches c ! j)\<rparr>"
      by (simp add: grown_def)
    then have "batch (fetches c ! j) = batch ((fetches b ! j)\<lparr>status := status (fetches c ! j)\<rparr>)"
      by simp
    then have "batch (fetches c ! j) = batch (fetches b ! j)" by simp
    moreover from True j assms(1) have "batches a \<le> batch (fetches b ! j)" by (simp add: grown_def)
    ultimately show ?thesis by simp
  next
    case False
    with j assms(2) have "batches b \<le> batch (fetches c ! j)" by (simp add: grown_def)
    moreover from assms(1) have "batches a \<le> batches b" by (simp add: grown_def)
    ultimately show ?thesis by simp
  qed
  from 1 2 3 show ?thesis unfolding grown_def by blast
qed

lemma grown_requested:
  "grown s (requested (batches s) track ks (s\<lparr>batches := batches s + 1\<rparr>))"
  using issued_shape [of "batches s" track "s\<lparr>batches := batches s + 1\<rparr>" ks]
  by (auto simp: grown_def requested_fields nth_append)

lemma grown_cong:
  "fetches t' = fetches t \<Longrightarrow> batches t' = batches t \<Longrightarrow> grown s t' = grown s t"
  by (simp add: grown_def)

lemma grown_cong_left:
  "fetches s' = fetches s \<Longrightarrow> batches s' = batches s \<Longrightarrow> grown s' t = grown s t"
  by (simp add: grown_def)

lemma grown_settle:
  assumes "i < length (fetches s)" "status (fetches s ! i) = Outstanding"
  shows "grown s (s\<lparr>fetches := (fetches s)[i := (fetches s ! i)\<lparr>status := st\<rparr>]\<rparr>)"
  using assms by (auto simp: grown_def nth_list_update)

lemma effect_grown: "grown s (effect e s)"
proof (cases e)
  case (Watch d)
  then show ?thesis by (simp add: grown_def)
next
  case (Delegated i result)
  show ?thesis
  proof (cases "i < length (lookups s) \<and> truthy (request s)")
    case True
    let ?s1 = "rebuilt (resolved s i result) (s\<lparr>lookups := removeAt i (lookups s)\<rparr>)"
    have "grown ?s1 (requested (batches ?s1) True (ids ?s1) (?s1\<lparr>batches := batches ?s1 + 1\<rparr>))"
      by (rule grown_requested)
    moreover have "grown ?s1 = grown s"
      by (rule ext, rule grown_cong_left) (simp_all add: rebuilt_fields)
    ultimately show ?thesis using True Delegated by (simp add: Let_def rebuilt_fields)
  next
    case False
    have "grown s (rebuilt (resolved s i result) (s\<lparr>lookups := removeAt i (lookups s)\<rparr>)) = grown s s"
      by (rule grown_cong) (simp_all add: rebuilt_fields)
    with False Delegated show ?thesis by (auto simp: Let_def grown_refl)
  qed
next
  case (DelegationFailed i)
  then show ?thesis by (simp add: grown_def)
next
  case (Fulfil i v)
  show ?thesis
  proof (cases "i < length (fetches s) \<and> status (fetches s ! i) = Outstanding")
    case True
    let ?t = "s\<lparr>fetches := (fetches s)[i := (fetches s ! i)\<lparr>status := Fulfilled\<rparr>]\<rparr>"
    have "grown s (storeData (fetches s ! i) v ?t) = grown s ?t"
      by (rule grown_cong) (simp_all add: storeData_fields)
    with True Fulfil grown_settle [of i s Fulfilled] show ?thesis by simp
  next
    case False
    with Fulfil show ?thesis by (auto simp: grown_refl)
  qed
next
  case (Reject i)
  then show ?thesis using grown_settle [of i s Rejected] by (auto simp: grown_refl)
next
  case (Timeout i)
  show ?thesis
  proof (cases "i < length (timers s)")
    case True
    let ?s1 = "s\<lparr>timers := removeAt i (timers s)\<rparr>"
    show ?thesis
    proof (cases "timers s ! i")
      case Broadcast
      with True Timeout show ?thesis by (simp add: grown_def broadcastCallback_def Let_def)
    next
      case (Poll d)
      show ?thesis
      proof (cases "truthy (request s)")
        case t: True
        have g: "grown ?s1 (requested (batches ?s1) False (ids ?s1) (?s1\<lparr>batches := batches ?s1 + 1\<rparr>))"
          by (rule grown_requested)
        have "grown ?s1 = grown s" by (rule ext, rule grown_cong_left) simp_all
        with g have "grown s (requested (batches s) False (ids s) (?s1\<lparr>batches := batches s + 1\<rparr>))"
          by simp
        moreover have "grown s (effect e s) =
            grown s (requested (batches s) False (ids s) (?s1\<lparr>batches := batches s + 1\<rparr>))"
          using True Timeout Poll t
          by (intro grown_cong) (simp_all add: Let_def startTimeout_def requested_fields)
        ultimately show ?thesis by simp
      next
        case f: False
        have "grown s (effect e s) = grown s s"
          using True Timeout Poll f by (intro grown_cong) (simp_all add: Let_def startTimeout_def)
        then show ?thesis by (simp add: grown_refl)
      qed
    qed
  next
    case False
    with Timeout show ?thesis by (simp add: grown_refl)
  qed
next
  case (RequestData r)
  let ?s1 = "s\<lparr>request := orEmptyObject r\<rparr>"
  have "grown ?s1 (requested (batches ?s1) True (ids ?s1) (?s1\<lparr>batches := batches ?s1 + 1\<rparr>))"
    by (rule grown_requested)
  moreover have "grown ?s1 = grown s" by (rule ext, rule grown_cong_left) simp_all
  ultimately show ?thesis using RequestData by simp
next
  case (SetRefreshInterval d)
  then show ?thesis by (simp add: grown_def setRefreshInterval_def startTimeout_def)
qed

lemma run_grown:
  "consistent s \<Longrightarrow> run es s = Inr t \<Longrightarrow> grown s t"
proof (induction es arbitrary: s)
  case Nil
  then show ?case by (simp add: grown_refl)
next
  case (Cons e es)
  from Cons.prems(1) have w: "wf s" by (simp add: consistent_def)
  from step_consistent [OF Cons.prems(1), of e] have c: "consistent (effect e s)"
    by (simp add: step_effect [OF w])
  from Cons.prems(2) have "run es (effect e s) = Inr t" by (simp add: step_effect [OF w])
  from Cons.IH [OF c this] effect_grown [of s e] show ?case by (rule grown_trans [rotated])
qed

lemma set_members_range:
  assumes "\<forall>j < n. batch (xs ! j) \<noteq> b" "\<forall>j. n \<le> j \<and> j < m \<longrightarrow> batch (xs ! j) = b"
    "\<forall>j. m \<le> j \<and> j < length xs \<longrightarrow> batch (xs ! j) \<noteq> b" "m \<le> length xs"
  shows "set (filter (\<lambda>f. batch f = b) xs) = (\<lambda>j. xs ! j) ` {n ..< m}"
proof
  show "set (filter (\<lambda>f. batch f = b) xs) \<subseteq> (\<lambda>j. xs ! j) ` {n ..< m}"
  proof
    fix f assume "f \<in> set (filter (\<lambda>f. batch f = b) xs)"
    then obtain j where j: "j < length xs" "xs ! j = f" "batch f = b"
      by (auto simp: in_set_conv_nth)
    with assms(1) have "n \<le> j" by (metis not_le_imp_less)
    moreover from j assms(3) have "j < m" by (metis not_le_imp_less)
    ultimately show "f \<in> (\<lambda>j. xs ! j) ` {n ..< m}" using j by auto
  qed
  show "(\<lambda>j. xs ! j) ` {n ..< m} \<subseteq> set (filter (\<lambda>f. batch f = b) xs)"
    using assms(2,4) by auto
qed

lemma length_filter_outside:
  assumes "n \<le> m" "m \<le> length xs"
  shows "length (filter P xs) =
     length (filter P (take (m - n) (drop n xs))) + length (filter P (outside n m xs))"
proof -
  have "drop (m - n) (drop n xs) = drop m xs" using assms(1) by simp
  then have "drop n xs = take (m - n) (drop n xs) @ drop m xs"
    using append_take_drop_id [of "m - n" "drop n xs"] by simp
  then have "xs = take n xs @ take (m - n) (drop n xs) @ drop m xs"
    using append_take_drop_id [of n xs] by simp
  then have "filter P xs = filter P (take n xs @ take (m - n) (drop n xs) @ drop m xs)"
    by simp
  then show ?thesis by (simp add: outside_def)
qed

lemma filter_middle_empty:
  assumes "\<forall>j. n \<le> j \<and> j < m \<longrightarrow> \<not> P (xs ! j)" "m \<le> length xs"
  shows "filter P (take (m - n) (drop n xs)) = []"
proof -
  have "\<not> P x" if "x \<in> set (take (m - n) (drop n xs))" for x
  proof -
    from that obtain i where i: "i < length (take (m - n) (drop n xs))"
      "take (m - n) (drop n xs) ! i = x" by (auto simp: in_set_conv_nth)
    then have "i < m - n" by simp
    with i assms(2) have "x = xs ! (n + i)" by simp
    moreover from \<open>i < m - n\<close> have "n \<le> n + i \<and> n + i < m" by arith
    ultimately show ?thesis using assms(1) by blast
  qed
  then show ?thesis by (simp add: filter_empty_conv)
qed

lemma length_filter_pointwise:
  "length xs = length ys \<Longrightarrow> \<forall>j < length xs. P (xs ! j) = Q (ys ! j) \<Longrightarrow>
   length (filter P xs) = length (filter Q ys)"
proof (induction xs ys rule: list_induct2)
  case Nil
  show ?case by simp
next
  case (Cons x xs y ys)
  from Cons.prems have "P x = Q y" by auto
  moreover from Cons.prems have "\<forall>j < length xs. P (xs ! j) = Q (ys ! j)" by auto
  ultimately show ?case using Cons.IH by simp
qed

lemma set_outside: "set (outside n m xs) \<subseteq> set xs"
proof
  fix x assume "x \<in> set (outside n m xs)"
  then have "x \<in> set (take n xs) \<or> x \<in> set (drop m xs)" by (simp add: outside_def)
  then show "x \<in> set xs" using in_set_takeD in_set_dropD by metis
qed

text \<open>
  Claim C1, as amended. From every state the controller can reach, \<^verbatim>\<open>requestData(r)\<close>
  stores \<^verbatim>\<open>r || {}\<close>, issues one tracked promise for each tracked identifier whose
  entry has a telemetry capability and raises the pending counter by their number (an
  entry without the capability leaves the counter as it was). Whatever happens
  afterwards, in any number of turns of any kind, every turn returns, the promises of
  the call keep their places, and
  \<^item> the combined promise is resolved exactly when every promise of the call has been
    fulfilled, and rejected exactly when one of them has been rejected, whether or not
    the others have settled;
  \<^item> when the combined promise is resolved the call no longer counts: if no tracked
    promise has been rejected, the pending counter is the number of tracked promises
    outside the call that are outstanding;
  \<^item> when the combined promise is resolved, the counter has the value it had before the
    call if no tracked promise has been issued since the call and no tracked promise
    issued before the call has settled since.
\<close>

theorem requestData_settles:
  assumes "run es TelemetryController = Inr s"
  shows "\<exists>s1. requestData r s = Inr (batches s, s1) \<and>
     request s1 = orEmptyObject r \<and>
     fetches s1 = fetches s @ issued (batches s) True s1 (ids s) \<and>
     pending s1 = pending s + int (length (issued (batches s) True s1 (ids s))) \<and>
     (\<forall>es'. \<exists>s2. run es' s1 = Inr s2 \<and>
        length (fetches s1) \<le> length (fetches s2) \<and>
        (\<forall>j < length (fetches s1).
           fetches s2 ! j = (fetches s1 ! j)\<lparr>status := status (fetches s2 ! j)\<rparr>) \<and>
        (combined s2 (batches s) = SignalResolved \<longleftrightarrow>
           (\<forall>j. length (fetches s) \<le> j \<and> j < length (fetches s1) \<longrightarrow>
              status (fetches s2 ! j) = Fulfilled)) \<and>
        (combined s2 (batches s) = SignalRejected \<longleftrightarrow>
           (\<exists>j. length (fetches s) \<le> j \<and> j < length (fetches s1) \<and>
              status (fetches s2 ! j) = Rejected)) \<and>
        (combined s2 (batches s) = SignalResolved \<longrightarrow>
           ((\<forall>j < length (fetches s2).
               trackPending (fetches s2 ! j) \<longrightarrow> status (fetches s2 ! j) \<noteq> Rejected) \<longrightarrow>
            pending s2 =
              int (length (filter awaited
                (outside (length (fetches s)) (length (fetches s1)) (fetches s2))))) \<and>
           ((\<forall>j. length (fetches s1) \<le> j \<and> j < length (fetches s2) \<longrightarrow>
               \<not> trackPending (fetches s2 ! j)) \<and>
            (\<forall>j < length (fetches s).
               trackPending (fetches s ! j) \<longrightarrow>
               status (fetches s2 ! j) = status (fetches s ! j)) \<longrightarrow>
            pending s2 = pending s)))"
proof -
  from assms have c: "consistent s" by (rule reachable_consistent)
  then have w: "wf s" and bi: "binv s" and pi: "pinv s" by (simp_all add: consistent_def)
  let ?b = "batches s"
  let ?n = "length (fetches s)"
  define s0 where "s0 = s\<lparr>request := orEmptyObject r, batches := ?b + 1\<rparr>"
  define s1 where "s1 = requested ?b True (ids s) s0"
  let ?new = "issued ?b True s1 (ids s)"
  let ?m = "length (fetches s1)"
  have rd: "requestData r s = Inr (?b, s1)"
    unfolding s1_def s0_def using w by (rule requestData_requested)
  have ic: "issued ?b True s1 (ids s) = issued ?b True s0 (ids s)"
    unfolding s1_def by (rule issued_cong) (simp_all add: requested_fields)
  have f1: "fetches s1 = fetches s @ ?new"
    unfolding ic by (simp add: s1_def requested_fields) (simp add: s0_def)
  have p1: "pending s1 = pending s + int (length ?new)"
    unfolding ic by (simp add: s1_def requested_fields) (simp add: s0_def)
  have r1: "request s1 = orEmptyObject r" by (simp add: s1_def s0_def requested_fields)
  have b1: "batches s1 = ?b + 1" by (simp add: s1_def s0_def requested_fields)
  have nm: "?n \<le> ?m" by (simp add: f1)
  from step_consistent [OF c, of "RequestData r"] have c1: "consistent s1"
    by (simp add: rd)
  have new: "batch (fetches s1 ! j) = ?b"
    if "?n \<le> j" "j < ?m" for j
  proof -
    from that have "fetches s1 ! j = ?new ! (j - ?n)" "j - ?n < length ?new"
      by (simp_all add: f1 nth_append)
    then have "fetches s1 ! j \<in> set ?new" by (metis nth_mem)
    with issued_shape [of ?b True s1 "ids s"] show ?thesis by blast
  qed
  have old: "fetches s1 ! j = fetches s ! j \<and> batch (fetches s1 ! j) \<noteq> ?b" if "j < ?n" for j
  proof -
    from that have "fetches s1 ! j = fetches s ! j" by (simp add: f1 nth_append)
    moreover from that bi have "batch (fetches s ! j) < ?b" by (simp add: binv_def)
    ultimately show ?thesis by simp
  qed
  have main: "\<exists>s2. run es' s1 = Inr s2 \<and>
        ?m \<le> length (fetches s2) \<and>
        (\<forall>j < ?m. fetches s2 ! j = (fetches s1 ! j)\<lparr>status := status (fetches s2 ! j)\<rparr>) \<and>
        (combined s2 ?b = SignalResolved \<longleftrightarrow>
           (\<forall>j. ?n \<le> j \<and> j < ?m \<longrightarrow> status (fetches s2 ! j) = Fulfilled)) \<and>
        (combined s2 ?b = SignalRejected \<longleftrightarrow>
           (\<exists>j. ?n \<le> j \<and> j < ?m \<and> status (fetches s2 ! j) = Rejected)) \<and>
        (combined s2 ?b = SignalResolved \<longrightarrow>
           ((\<forall>j < length (fetches s2).
               trackPending (fetches s2 ! j) \<longrightarrow> status (fetches s2 ! j) \<noteq> Rejected) \<longrightarrow>
            pending s2 = int (length (filter awaited (outside ?n ?m (fetches s2))))) \<and>
           ((\<forall>j. ?m \<le> j \<and> j < length (fetches s2) \<longrightarrow> \<not> trackPending (fetches s2 ! j)) \<and>
            (\<forall>j < ?n. trackPending (fetches s ! j) \<longrightarrow>
               status (fetches s2 ! j) = status (fetches s ! j)) \<longrightarrow>
            pending s2 = pending s))" for es'
  proof -
    from run_consistent [OF c1, of es'] obtain s2 where
      s2: "run es' s1 = Inr s2" and c2: "consistent s2" by blast
    from run_grown [OF c1 s2] have g: "grown s1 s2" .
    let ?fs = "fetches s2"
    from g have l2: "?m \<le> length ?fs" by (simp add: grown_def)
    from g have k: "\<forall>j < ?m. ?fs ! j = (fetches s1 ! j)\<lparr>status := status (?fs ! j)\<rparr>"
      by (simp add: grown_def)
    have kb: "batch (?fs ! j) = batch (fetches s1 ! j)" if "j < ?m" for j
    proof -
      from k that have "?fs ! j = (fetches s1 ! j)\<lparr>status := status (?fs ! j)\<rparr>" by blast
      then have "batch (?fs ! j) = batch ((fetches s1 ! j)\<lparr>status := status (?fs ! j)\<rparr>)" by simp
      then show ?thesis by simp
    qed
    have kt: "trackPending (?fs ! j) = trackPending (fetches s1 ! j)" if "j < ?m" for j
    proof -
      from k that have "?fs ! j = (fetches s1 ! j)\<lparr>status := status (?fs ! j)\<rparr>" by blast
      then have "trackPending (?fs ! j) =
          trackPending ((fetches s1 ! j)\<lparr>status := status (?fs ! j)\<rparr>)" by simp
      then show ?thesis by simp
    qed
    have later: "batch (?fs ! j) \<noteq> ?b" if "?m \<le> j \<and> j < length ?fs" for j
    proof -
      from g that have "batches s1 \<le> batch (?fs ! j)" by (simp add: grown_def)
      then show ?thesis by (simp add: b1)
    qed
    have m: "set (members s2 ?b) = (\<lambda>j. ?fs ! j) ` {?n ..< ?m}"
      unfolding members_def
    proof (rule set_members_range)
      show "\<forall>j < ?n. batch (?fs ! j) \<noteq> ?b"
      proof (intro allI impI)
        fix j assume j: "j < ?n"
        with nm have "j < ?m" by simp
        from old [OF j] have "batch (fetches s1 ! j) \<noteq> ?b" by blast
        with kb [OF \<open>j < ?m\<close>] show "batch (?fs ! j) \<noteq> ?b" by simp
      qed
      show "\<forall>j. ?n \<le> j \<and> j < ?m \<longrightarrow> batch (?fs ! j) = ?b"
      proof (intro allI impI)
        fix j assume j: "?n \<le> j \<and> j < ?m"
        then have "batch (?fs ! j) = batch (fetches s1 ! j)" using kb by blast
        with new [of j] j show "batch (?fs ! j) = ?b" by simp
      qed
      show "\<forall>j. ?m \<le> j \<and> j < length ?fs \<longrightarrow> batch (?fs ! j) \<noteq> ?b"
        using later by blast
      show "?m \<le> length ?fs" by (rule l2)
    qed
    have res: "combined s2 ?b = SignalResolved \<longleftrightarrow>
           (\<forall>j. ?n \<le> j \<and> j < ?m \<longrightarrow> status (?fs ! j) = Fulfilled)"
    proof
      assume "combined s2 ?b = SignalResolved"
      then have "\<forall>f \<in> set (members s2 ?b). status f = Fulfilled"
        by (auto simp: combined_def split: if_splits)
      then show "\<forall>j. ?n \<le> j \<and> j < ?m \<longrightarrow> status (?fs ! j) = Fulfilled"
        unfolding m by auto
    next
      assume a: "\<forall>j. ?n \<le> j \<and> j < ?m \<longrightarrow> status (?fs ! j) = Fulfilled"
      then have "\<forall>f \<in> set (members s2 ?b). status f = Fulfilled" unfolding m by auto
      moreover from this have "\<not> (\<exists>f \<in> set (members s2 ?b). status f = Rejected)" by auto
      ultimately show "combined s2 ?b = SignalResolved" by (simp add: combined_def)
    qed
    have rej: "combined s2 ?b = SignalRejected \<longleftrightarrow>
           (\<exists>j. ?n \<le> j \<and> j < ?m \<and> status (?fs ! j) = Rejected)"
    proof -
      have "combined s2 ?b = SignalRejected \<longleftrightarrow> (\<exists>f \<in> set (members s2 ?b). status f = Rejected)"
        by (simp add: combined_def)
      also have "\<dots> \<longleftrightarrow> (\<exists>j. ?n \<le> j \<and> j < ?m \<and> status (?fs ! j) = Rejected)"
        unfolding m by auto
      finally show ?thesis .
    qed
    from c2 have p2: "pending s2 = int (length (filter owed ?fs))"
      by (simp add: consistent_def pinv_def)
    have fin: "((\<forall>j < length ?fs. trackPending (?fs ! j) \<longrightarrow> status (?fs ! j) \<noteq> Rejected) \<longrightarrow>
            pending s2 = int (length (filter awaited (outside ?n ?m ?fs)))) \<and>
           ((\<forall>j. ?m \<le> j \<and> j < length ?fs \<longrightarrow> \<not> trackPending (?fs ! j)) \<and>
            (\<forall>j < ?n. trackPending (fetches s ! j) \<longrightarrow>
               status (?fs ! j) = status (fetches s ! j)) \<longrightarrow>
            pending s2 = pending s)"
      if r: "combined s2 ?b = SignalResolved"
    proof -
      from r res have "\<forall>j. ?n \<le> j \<and> j < ?m \<longrightarrow> \<not> owed (?fs ! j)" by (simp add: owed_def)
      then have e: "filter owed (take (?m - ?n) (drop ?n ?fs)) = []"
        using l2 by (rule filter_middle_empty)
      from length_filter_outside [OF nm l2, of owed] e
      have o: "length (filter owed ?fs) = length (filter owed (outside ?n ?m ?fs))" by simp
      with p2 have 1: "pending s2 = int (length (filter owed (outside ?n ?m ?fs)))" by simp
      have 0: "pending s2 = int (length (filter awaited (outside ?n ?m ?fs)))"
        if h0: "\<forall>j < length ?fs. trackPending (?fs ! j) \<longrightarrow> status (?fs ! j) \<noteq> Rejected"
      proof -
        have "owed x = awaited x" if "x \<in> set (outside ?n ?m ?fs)" for x
        proof -
          from that set_outside [of ?n ?m ?fs] have "x \<in> set ?fs" by blast
          then obtain j where "j < length ?fs" "?fs ! j = x" by (auto simp: in_set_conv_nth)
          with h0 have "trackPending x \<longrightarrow> status x \<noteq> Rejected" by blast
          then show ?thesis by (cases "status x") (simp_all add: owed_def awaited_def)
        qed
        then have "filter owed (outside ?n ?m ?fs) = filter awaited (outside ?n ?m ?fs)"
          by (intro filter_cong) simp_all
        with 1 show ?thesis by simp
      qed
      have 2: "pending s2 = pending s"
        if h1: "\<forall>j. ?m \<le> j \<and> j < length ?fs \<longrightarrow> \<not> trackPending (?fs ! j)"
        and h2: "\<forall>j < ?n. trackPending (fetches s ! j) \<longrightarrow>
               status (?fs ! j) = status (fetches s ! j)"
      proof -
        have "\<not> owed x" if "x \<in> set (drop ?m ?fs)" for x
        proof -
          from that obtain i where "i < length (drop ?m ?fs)" "drop ?m ?fs ! i = x"
            by (auto simp: in_set_conv_nth)
          then have "x = ?fs ! (?m + i)" "?m + i < length ?fs" using l2 by simp_all
          with h1 have "\<not> trackPending x" by simp
          then show ?thesis by (simp add: owed_def)
        qed
        then have d: "filter owed (drop ?m ?fs) = []" by (simp add: filter_empty_conv)
        have "length (filter owed (take ?n ?fs)) = length (filter owed (fetches s))"
        proof (rule length_filter_pointwise)
          show "length (take ?n ?fs) = length (fetches s)" using l2 nm by simp
          show "\<forall>j < length (take ?n ?fs). owed (take ?n ?fs ! j) = owed (fetches s ! j)"
          proof (intro allI impI)
            fix j assume "j < length (take ?n ?fs)"
            then have j: "j < ?n" by simp
            with nm have jm: "j < ?m" by simp
            from old [OF j] have o1: "fetches s1 ! j = fetches s ! j" by simp
            have t: "trackPending (?fs ! j) = trackPending (fetches s ! j)"
              using kt [OF jm] o1 by simp
            from h2 j have "trackPending (fetches s ! j) \<longrightarrow>
                (status (?fs ! j) = Fulfilled \<longleftrightarrow> status (fetches s ! j) = Fulfilled)"
              by simp
            with t have "owed (?fs ! j) = owed (fetches s ! j)" by (auto simp: owed_def)
            with j show "owed (take ?n ?fs ! j) = owed (fetches s ! j)" by simp
          qed
        qed
        with d have "length (filter owed (outside ?n ?m ?fs)) = length (filter owed (fetches s))"
          by (simp add: outside_def)
        with 1 pi show ?thesis by (simp add: pinv_def)
      qed
      from 0 2 show ?thesis by blast
    qed
    from s2 l2 k res rej fin show ?thesis by blast
  qed
  from rd r1 f1 p1 main show ?thesis by blast
qed


lemma requestData_built:
  "requestData (JObj [(''mode'', JStr ''latest'')])
     \<lparr>ids = [''a''], response = [''a'' \<mapsto> 0], request = JObj [],
           pending = 1, metadatas = [JNum 1], interval = JNum 1000,
           refreshing = True, broadcasting = False,
           heap = [\<lparr>cname = ''A'', cdomainObject = sensorA,
                  metadata = JNum 1, cpending = 0, data = JObj []\<rparr>],
           timers = [Poll (JNum 1000)],
           fetches = [\<lparr>target = 0, trackPending = True, params = JObj [], batch = 0,
                  status = Outstanding\<rparr>],
           batches = Suc 0, lookups = [], broadcasts = 0, warnings = []\<rparr> =
   Inr (1, \<lparr>ids = [''a''], response = [''a'' \<mapsto> 0],
           request = JObj [(''mode'', JStr ''latest'')],
           pending = 2, metadatas = [JNum 1], interval = JNum 1000,
           refreshing = True, broadcasting = False,
           heap = [\<lparr>cname = ''A'', cdomainObject = sensorA,
                  metadata = JNum 1, cpending = 0, data = JObj []\<rparr>],
           timers = [Poll (JNum 1000)],
           fetches = [\<lparr>target = 0, trackPending = True, params = JObj [], batch = 0,
                  status = Outstanding\<rparr>,
                  \<lparr>target = 0, trackPending = True,
                  params = JObj [(''mode'', JStr ''latest'')], batch = 1,
                  status = Outstanding\<rparr>],
           batches = 2, lookups = [], broadcasts = 0, warnings = []\<rparr>)"
  by (simp add: controller_defs sensorA_def)

theorem requestData_settles_witness:
  "\<exists>s s1 s2 s3.
     run [Watch (Some sensorA), Delegated 0 None] TelemetryController = Inr s \<and>
     requestData (JObj [(''mode'', JStr ''latest'')]) s = Inr (1, s1) \<and>
     pending s = 1 \<and> pending s1 = 2 \<and>
     run [Fulfil 1 (JNum 9)] s1 = Inr s2 \<and>
     combined s2 1 = SignalResolved \<and> pending s2 = 1 \<and>
     run [Fulfil 0 (JNum 5), Fulfil 1 (JNum 9)] s1 = Inr s3 \<and>
     combined s3 1 = SignalResolved \<and> pending s3 = 0"
proof -
  let ?f0 = "\<lparr>target = 0, trackPending = True, params = JObj [], batch = 0,
                  status = Outstanding\<rparr>"
  let ?f1 = "\<lparr>target = 0, trackPending = True,
                  params = JObj [(''mode'', JStr ''latest'')], batch = 1,
                  status = Outstanding\<rparr>"
  let ?s = "\<lparr>ids = [''a''], response = [''a'' \<mapsto> 0], request = JObj [],
           pending = 1, metadatas = [JNum 1], interval = JNum 1000,
           refreshing = True, broadcasting = False,
           heap = [\<lparr>cname = ''A'', cdomainObject = sensorA,
                  metadata = JNum 1, cpending = 0, data = JObj []\<rparr>],
           timers = [Poll (JNum 1000)],
           fetches = [\<lparr>target = 0, trackPending = True, params = JObj [], batch = 0,
                  status = Outstanding\<rparr>],
           batches = Suc 0, lookups = [], broadcasts = 0, warnings = []\<rparr>"
  let ?r = "JObj [(''mode'', JStr ''latest'')]"
  let ?s1 = "\<lparr>ids = [''a''], response = [''a'' \<mapsto> 0],
           request = JObj [(''mode'', JStr ''latest'')],
           pending = 2, metadatas = [JNum 1], interval = JNum 1000,
           refreshing = True, broadcasting = False,
           heap = [\<lparr>cname = ''A'', cdomainObject = sensorA,
                  metadata = JNum 1, cpending = 0, data = JObj []\<rparr>],
           timers = [Poll (JNum 1000)],
           fetches = [\<lparr>target = 0, trackPending = True, params = JObj [], batch = 0,
                  status = Outstanding\<rparr>,
                  \<lparr>target = 0, trackPending = True,
                  params = JObj [(''mode'', JStr ''latest'')], batch = 1,
                  status = Outstanding\<rparr>],
           batches = 2, lookups = [], broadcasts = 0, warnings = []\<rparr>"
  have "\<exists>s1. requestData ?r ?s = Inr (batches ?s, s1) \<and>
     (\<forall>es'. \<exists>s2. run es' s1 = Inr s2 \<and>
        (combined s2 (batches ?s) = SignalResolved \<longleftrightarrow>
           (\<forall>j. length (fetches ?s) \<le> j \<and> j < length (fetches s1) \<longrightarrow>
              status (fetches s2 ! j) = Fulfilled)) \<and>
        (combined s2 (batches ?s) = SignalResolved \<longrightarrow>
           ((\<forall>j < length (fetches s2).
               trackPending (fetches s2 ! j) \<longrightarrow> status (fetches s2 ! j) \<noteq> Rejected) \<longrightarrow>
            pending s2 =
              int (length (filter awaited
                (outside (length (fetches ?s)) (length (fetches s1)) (fetches s2))))) \<and>
           ((\<forall>j. length (fetches s1) \<le> j \<and> j < length (fetches s2) \<longrightarrow>
               \<not> trackPending (fetches s2 ! j)) \<and>
            (\<forall>j < length (fetches ?s).
               trackPending (fetches ?s ! j) \<longrightarrow>
               status (fetches s2 ! j) = status (fetches ?s ! j)) \<longrightarrow>
            pending s2 = pending ?s)))"
    using requestData_settles [OF run_built, of ?r]
    apply (elim exE conjE)
    apply (rule exI, rule conjI, assumption)
    apply (rule allI)
    apply (drule_tac x = es' in spec)
    apply (elim exE conjE)
    apply (rule exI, intro conjI; assumption)
    done
  then obtain s1 where s1: "requestData ?r ?s = Inr (batches ?s, s1)"
    and all: "\<forall>es'. \<exists>s2. run es' s1 = Inr s2 \<and>
        (combined s2 (batches ?s) = SignalResolved \<longleftrightarrow>
           (\<forall>j. length (fetches ?s) \<le> j \<and> j < length (fetches s1) \<longrightarrow>
              status (fetches s2 ! j) = Fulfilled)) \<and>
        (combined s2 (batches ?s) = SignalResolved \<longrightarrow>
           ((\<forall>j < length (fetches s2).
               trackPending (fetches s2 ! j) \<longrightarrow> status (fetches s2 ! j) \<noteq> Rejected) \<longrightarrow>
            pending s2 =
              int (length (filter awaited
                (outside (length (fetches ?s)) (length (fetches s1)) (fetches s2))))) \<and>
           ((\<forall>j. length (fetches s1) \<le> j \<and> j < length (fetches s2) \<longrightarrow>
               \<not> trackPending (fetches s2 ! j)) \<and>
            (\<forall>j < length (fetches ?s).
               trackPending (fetches ?s ! j) \<longrightarrow>
               status (fetches s2 ! j) = status (fetches ?s ! j)) \<longrightarrow>
            pending s2 = pending ?s))"
    by (elim exE conjE)
  from s1 have e: "s1 = ?s1" unfolding requestData_built by simp
  have one: "j = 1" if "Suc 0 \<le> j" "j < 2" for j :: nat using that by arith
  from all obtain s2 where s2: "run [Fulfil 1 (JNum 9)] s1 = Inr s2"
    and i2: "combined s2 (batches ?s) = SignalResolved \<longleftrightarrow>
           (\<forall>j. length (fetches ?s) \<le> j \<and> j < length (fetches s1) \<longrightarrow>
              status (fetches s2 ! j) = Fulfilled)"
    and h2: "combined s2 (batches ?s) = SignalResolved \<longrightarrow>
           ((\<forall>j. length (fetches s1) \<le> j \<and> j < length (fetches s2) \<longrightarrow>
               \<not> trackPending (fetches s2 ! j)) \<and>
            (\<forall>j < length (fetches ?s).
               trackPending (fetches ?s ! j) \<longrightarrow>
               status (fetches s2 ! j) = status (fetches ?s ! j)) \<longrightarrow>
            pending s2 = pending ?s)"
    by blast
  have "\<exists>t. run [Fulfil 1 (JNum 9)] ?s1 = Inr t \<and>
      fetches t = [?f0, ?f1\<lparr>status := Fulfilled\<rparr>]"
    by (simp add: controller_defs)
  with s2 have f2: "fetches s2 = [?f0, ?f1\<lparr>status := Fulfilled\<rparr>]"
    unfolding e by (elim exE conjE) (simp only: sum.inject)
  have r2: "combined s2 1 = SignalResolved"
    using i2 one unfolding e f2 by auto
  have p2: "pending s2 = 1"
    using h2 r2 unfolding e f2 by simp
  from all obtain s3 where s3: "run [Fulfil 0 (JNum 5), Fulfil 1 (JNum 9)] s1 = Inr s3"
    and i3: "combined s3 (batches ?s) = SignalResolved \<longleftrightarrow>
           (\<forall>j. length (fetches ?s) \<le> j \<and> j < length (fetches s1) \<longrightarrow>
              status (fetches s3 ! j) = Fulfilled)"
    and h3: "combined s3 (batches ?s) = SignalResolved \<longrightarrow>
           (\<forall>j < length (fetches s3).
               trackPending (fetches s3 ! j) \<longrightarrow> status (fetches s3 ! j) \<noteq> Rejected) \<longrightarrow>
           pending s3 =
             int (length (filter awaited
               (outside (length (fetches ?s)) (length (fetches s1)) (fetches s3))))"
    by blast
  have "\<exists>t. run [Fulfil 0 (JNum 5), Fulfil 1 (JNum 9)] ?s1 = Inr t \<and>
      fetches t = [?f0\<lparr>status := Fulfilled\<rparr>, ?f1\<lparr>status := Fulfilled\<rparr>]"
    by (simp add: controller_defs)
  with s3 have f3: "fetches s3 = [?f0\<lparr>status := Fulfilled\<rparr>, ?f1\<lparr>status := Fulfilled\<rparr>]"
    unfolding e by (elim exE conjE) (simp only: sum.inject)
  have r3: "combined s3 1 = SignalResolved"
    using i3 one unfolding e f3 by auto
  have p3: "pending s3 = 0"
    using h3 r3 unfolding e f3 by (simp add: outside_def awaited_def less_Suc_eq)
  from s2 s3 r2 p2 r3 p3 show ?thesis unfolding run_built e
    by (intro exI [of _ ?s] exI [of _ ?s1] exI [of _ s2] exI [of _ s3])
       (simp add: requestData_built)
qed




lemma older_fetch_fulfilled:
  "\<exists>s b s1 s2.
     run [Watch (Some sensorA), Delegated 0 None] TelemetryController = Inr s \<and>
     pending s = 1 \<and>
     requestData (JObj [(''mode'', JStr ''latest'')]) s = Inr (b, s1) \<and>
     run [Fulfil 0 (JNum 5), Fulfil 1 (JNum 9)] s1 = Inr s2 \<and>
     combined s2 b = SignalResolved \<and> pending s2 = 0"
  unfolding run_built
  by (simp add: requestData_built) (simp add: controller_defs combined_def members_def)

text \<open>
  Claim C1 as stated fails when a fetch is rejected. Two objects are tracked and the
  counter is 2; \<^verbatim>\<open>requestData\<close> issues the promises 2 and 3. Promise 2 is rejected:
  the combined promise is rejected at once, while promise 3 is still outstanding. Then
  promise 3 is fulfilled: every fetch of the call has settled and the counter is 3.
  It also fails without a rejection, when a promise issued before the call is
  fulfilled before the call's own: one object is tracked and the counter is 1 for the
  promise 0 issued when the containers were built; \<^verbatim>\<open>requestData\<close> issues promise 1;
  promise 0 and then promise 1 are fulfilled, the combined promise is resolved and the
  counter is 0.
\<close>

theorem rejected_fetch_stays_pending:
  "(\<exists>s b s1 s2 s3.
     run [Watch (Some sensorA), Delegated 0 (Some [sensorB])] TelemetryController = Inr s \<and>
     pending s = 2 \<and>
     requestData (JObj []) s = Inr (b, s1) \<and>
     step (Reject 2) s1 = Inr s2 \<and>
     combined s2 b = SignalRejected \<and> status (fetches s2 ! 3) = Outstanding \<and>
     step (Fulfil 3 (JNum 9)) s2 = Inr s3 \<and>
     map status (members s3 b) = [Rejected, Fulfilled] \<and>
     pending s3 = 3 \<and> isRequestPending s3) \<and>
   (\<exists>s b s1 s2.
     run [Watch (Some sensorA), Delegated 0 None] TelemetryController = Inr s \<and>
     pending s = 1 \<and>
     requestData (JObj [(''mode'', JStr ''latest'')]) s = Inr (b, s1) \<and>
     run [Fulfil 0 (JNum 5), Fulfil 1 (JNum 9)] s1 = Inr s2 \<and>
     combined s2 b = SignalResolved \<and> pending s2 = 0)"
proof (rule conjI [OF _ older_fetch_fulfilled])
  let ?s = "\<lparr>ids = [''a'', ''b''], response = [''a'' \<mapsto> 0, ''b'' \<mapsto> 1], request = JObj [],
           pending = 2, metadatas = [JNum 1, JNum 2], interval = JNum 1000,
           refreshing = True, broadcasting = False,
           heap = [\<lparr>cname = ''A'', cdomainObject = sensorA,
                  metadata = JNum 1, cpending = 0, data = JObj []\<rparr>,
                 \<lparr>cname = ''B'', cdomainObject = sensorB,
                  metadata = JNum 2, cpending = 0, data = JObj []\<rparr>],
           timers = [Poll (JNum 1000)],
           fetches = [\<lparr>target = 0, trackPending = True, params = JObj [], batch = 0,
                  status = Outstanding\<rparr>,
                  \<lparr>target = 1, trackPending = True, params = JObj [], batch = 0,
                  status = Outstanding\<rparr>],
           batches = Suc 0, lookups = [], broadcasts = 0, warnings = []\<rparr>"
  let ?f0 = "\<lparr>target = 0, trackPending = True, params = JObj [], batch = 0,
                  status = Outstanding\<rparr>"
  let ?f1 = "\<lparr>target = 1, trackPending = True, params = JObj [], batch = 0,
                  status = Outstanding\<rparr>"
  let ?f2 = "\<lparr>target = 0, trackPending = True, params = JObj [], batch = 1,
                  status = Outstanding\<rparr>"
  let ?f3 = "\<lparr>target = 1, trackPending = True, params = JObj [], batch = 1,
                  status = Outstanding\<rparr>"
  let ?s1 = "?s\<lparr>pending := 4, fetches := [?f0, ?f1, ?f2, ?f3], batches := 2\<rparr>"
  let ?s2 = "?s1\<lparr>fetches := [?f0, ?f1, ?f2\<lparr>status := Rejected\<rparr>, ?f3]\<rparr>"
  let ?s3 = "?s2\<lparr>pending := 3, broadcasting := True,
      heap := [\<lparr>cname = ''A'', cdomainObject = sensorA,
                  metadata = JNum 1, cpending = 0, data = JObj []\<rparr>,
                 \<lparr>cname = ''B'', cdomainObject = sensorB,
                  metadata = JNum 2, cpending = 0, data = JNum 9\<rparr>],
      timers := [Poll (JNum 1000), Broadcast],
      fetches := [?f0, ?f1, ?f2\<lparr>status := Rejected\<rparr>, ?f3\<lparr>status := Fulfilled\<rparr>]\<rparr>"
  have 1: "requestData (JObj []) ?s = Inr (1, ?s1)"
    by (simp add: controller_defs sensorA_def sensorB_def)
  have 2: "step (Reject 2) ?s1 = Inr ?s2" by simp
  have 3: "combined ?s2 1 = SignalRejected" "status (fetches ?s2 ! 3) = Outstanding"
    by (simp_all add: combined_def members_def)
  have 4: "step (Fulfil 3 (JNum 9)) ?s2 = Inr ?s3"
    by (simp add: controller_defs)
  have 5: "map status (members ?s3 1) = [Rejected, Fulfilled]" "pending ?s3 = 3"
    "isRequestPending ?s3" "pending ?s = 2"
    by (simp_all add: members_def isRequestPending_def)
  show "\<exists>s b s1 s2 s3.
     run [Watch (Some sensorA), Delegated 0 (Some [sensorB])] TelemetryController = Inr s \<and>
     pending s = 2 \<and>
     requestData (JObj []) s = Inr (b, s1) \<and>
     step (Reject 2) s1 = Inr s2 \<and>
     combined s2 b = SignalRejected \<and> status (fetches s2 ! 3) = Outstanding \<and>
     step (Fulfil 3 (JNum 9)) s2 = Inr s3 \<and>
     map status (members s3 b) = [Rejected, Fulfilled] \<and>
     pending s3 = 3 \<and> isRequestPending s3"
    unfolding run_both
    using 1 2 3 4 5
    by (intro exI [of _ ?s] exI [of _ 1] exI [of _ ?s1] exI [of _ ?s2] exI [of _ ?s3]) blast
qed

section \<open>The walk of the export action\<close>

lemma subtree_unfold: "subtree d = d # concat (map subtree (childrenOf d))"
  by (cases d; cases "composition d") (auto simp: childrenOf_def)

lemma work_unfold:
  "work d = (if composition d \<noteq> None then 1 else 0) + sum_list (map work (childrenOf d))"
proof -
  have "length (filter P (concat (map subtree cs))) =
        sum_list (map (\<lambda>c. length (filter P (subtree c))) cs)" for P cs
    by (induction cs) simp_all
  then show ?thesis
    unfolding work_def subtree_unfold [of d] by (simp add: comp_def)
qed

lemma enter_child:
  assumes "calls s > 0" "t < length (trees s)"
  shows "writeNode t c (assign t c s) = entered t [c] s"
proof (cases "composition c")
  case None
  with assms show ?thesis
    by (simp add: writeNode_def assign_def entered_def writeEnd_def Let_def)
next
  case (Some cs)
  with assms show ?thesis
    by (simp add: writeNode_def assign_def entered_def Let_def)
qed

lemma put_entries:
  "map_of (entries (put k v T)) k' =
     (if k' = k \<and> k \<noteq> ''__proto__'' then Some v else map_of (entries T) k')"
  by (simp add: put_def update_conv')

lemma put_prototype:
  "prototype (put k v T) = (if k = ''__proto__'' then Some v else prototype T)"
  by (simp add: put_def)

lemma entered_Cons:
  assumes "t < length (trees s)"
  shows "entered t cs (entered t [c] s) = entered t (c # cs) s"
  using assms by (simp add: entered_def)

lemma fold_entered:
  assumes "calls s > 0" "t < length (trees s)"
  shows "fold (\<lambda>child s'. writeNode t child (assign t child s')) cs s = entered t cs s"
  using assms
proof (induction cs arbitrary: s)
  case Nil
  then show ?case by (simp add: entered_def)
next
  case (Cons c cs)
  have 1: "calls (entered t [c] s) > 0" using Cons.prems by (simp add: entered_def)
  have 2: "t < length (trees (entered t [c] s))" using Cons.prems by (simp add: entered_def)
  show ?case
    using Cons.IH [OF 1 2] Cons.prems
    by (simp add: enter_child entered_Cons)
qed

lemma self_in_subtree: "d \<in> set (subtree d)"
  by (subst subtree_unfold) simp

lemma child_subtree:
  "c \<in> set (childrenOf d) \<Longrightarrow> set (subtree c) \<subseteq> set (subtree d)"
  by (subst (2) subtree_unfold) auto

lemma fold_update_keeps:
  "map_of (entries T) k \<noteq> None \<Longrightarrow>
   map_of (entries (fold (\<lambda>c. put (getId c) (getModel c)) cs T)) k \<noteq> None"
  by (induction cs arbitrary: T) (simp_all add: put_entries)

lemma fold_update_adds:
  "c \<in> set cs \<Longrightarrow> getId c \<noteq> ''__proto__'' \<Longrightarrow>
   map_of (entries (fold (\<lambda>c. put (getId c) (getModel c)) cs T)) (getId c) \<noteq> None"
proof (induction cs arbitrary: T)
  case Nil
  then show ?case by simp
next
  case (Cons a cs)
  show ?case
  proof (cases "c = a")
    case True
    have "map_of (entries (put (getId a) (getModel a) T)) (getId a) \<noteq> None"
      using Cons.prems(2) True by (simp add: put_entries)
    then show ?thesis using True by (simp add: fold_update_keeps)
  next
    case False
    with Cons show ?thesis by simp
  qed
qed

lemma fold_update_sound:
  "map_of (entries (fold (\<lambda>c. put (getId c) (getModel c)) cs T)) k = Some m \<Longrightarrow>
   map_of (entries T) k = Some m \<or>
   (k \<noteq> ''__proto__'' \<and> (\<exists>c \<in> set cs. getId c = k \<and> getModel c = m))"
proof (induction cs arbitrary: T)
  case Nil
  then show ?case by simp
next
  case (Cons a cs)
  from Cons.prems
  have "map_of (entries (fold (\<lambda>c. put (getId c) (getModel c)) cs
          (put (getId a) (getModel a) T))) k = Some m" by simp
  from Cons.IH [OF this]
  show ?case by (auto simp: put_entries split: if_splits)
qed

lemma fold_prototype_sound:
  "prototype (fold (\<lambda>c. put (getId c) (getModel c)) cs T) = Some m \<Longrightarrow>
   prototype T = Some m \<or> (\<exists>c \<in> set cs. getId c = ''__proto__'' \<and> getModel c = m)"
proof (induction cs arbitrary: T)
  case Nil
  then show ?case by simp
next
  case (Cons a cs)
  from Cons.prems
  have "prototype (fold (\<lambda>c. put (getId c) (getModel c)) cs
          (put (getId a) (getModel a) T)) = Some m" by simp
  from Cons.IH [OF this]
  show ?case by (auto simp: put_prototype split: if_splits)
qed

lemma set_removeAt_rest:
  assumes "i < length xs"
  shows "set xs \<subseteq> insert (xs ! i) (set (removeAt i xs))"
proof -
  have "set xs = set (take i xs @ xs ! i # drop (Suc i) xs)"
    using assms by (simp only: id_take_nth_drop [symmetric])
  also have "\<dots> = insert (xs ! i) (set (removeAt i xs))"
    by (simp add: removeAt_def)
  finally show ?thesis by simp
qed

lemma length_removeAt: "i < length xs \<Longrightarrow> length (removeAt i xs) = length xs - 1"
  by (simp add: removeAt_def)

lemma resolve_entered:
  assumes "i < length (composing s)" "calls s > 0" "fst (composing s ! i) < length (trees s)"
  shows "resolve i s =
    writeEnd (fst (composing s ! i))
      (entered (fst (composing s ! i)) (childrenOf (snd (composing s ! i)))
         (s\<lparr>composing := removeAt i (composing s)\<rparr>))"
proof -
  obtain t d where p: "composing s ! i = (t, d)" by (cases "composing s ! i")
  let ?s1 = "s\<lparr>composing := removeAt i (composing s)\<rparr>"
  have "fold (\<lambda>child s'. writeNode t child (assign t child s')) (childrenOf d) ?s1 =
        entered t (childrenOf d) ?s1"
    using assms(2,3) p by (intro fold_entered) simp_all
  then show ?thesis using assms(1) p by (simp add: resolve_def composed_def childrenOf_def)
qed

lemma writeEnd_fields:
  "calls (writeEnd t s) = calls s - 1"
  "trees (writeEnd t s) = trees s"
  "composing (writeEnd t s) = composing s"
  "exported (writeEnd t s) = exported s @
     (if calls s - 1 = 0
      then [(wrap (fst (trees s ! t)), name (getModel (snd (trees s ! t))) @ ''.json'')]
      else [])"
  by (simp_all add: writeEnd_def callback_def Let_def)

lemma entered_fields:
  "calls (entered t cs s) = calls s + int (length (filter (\<lambda>c. composition c \<noteq> None) cs))"
  "composing (entered t cs s) =
     composing s @ map (Pair t) (filter (\<lambda>c. composition c \<noteq> None) cs)"
  "exported (entered t cs s) = exported s"
  "length (trees (entered t cs s)) = length (trees s)"
  "t < length (trees s) \<Longrightarrow>
     trees (entered t cs s) ! t =
       (fold (\<lambda>c. put (getId c) (getModel c)) cs (fst (trees s ! t)), snd (trees s ! t))"
  by (simp_all add: entered_def)

lemma perform_walking:
  assumes "calls s0 = 0" "composing s0 = []"
  shows "walking (length (trees s0)) (contextDomainObject s0) (exported s0) (perform s0)"
proof -
  let ?root = "contextDomainObject s0"
  let ?t0 = "length (trees s0)"
  let ?T = "put (getId ?root) (getModel ?root) emptyTree"
  have cover: "getId n = ''__proto__'' \<or> map_of (entries ?T) (getId n) \<noteq> None \<or>
        (\<exists>c \<in> set (childrenOf ?root). n \<in> set (subtree c))"
    if "n \<in> set (subtree ?root)" for n
    using that by (subst (asm) subtree_unfold) (auto simp: put_entries)
  have sound: "k \<noteq> ''__proto__'' \<and> (\<exists>n \<in> set (subtree ?root). getId n = k \<and> getModel n = m)"
    if "map_of (entries ?T) k = Some m" for k m
    using that self_in_subtree [of ?root]
    by (auto simp: put_entries emptyTree_def split: if_splits)
  have psound: "\<exists>n \<in> set (subtree ?root). getId n = ''__proto__'' \<and> getModel n = m"
    if "prototype ?T = Some m" for m
    using that self_in_subtree [of ?root]
    by (auto simp: put_prototype emptyTree_def split: if_splits)
  show ?thesis
  proof (cases "composition ?root")
    case None
    then have "childrenOf ?root = []" by (simp add: childrenOf_def)
    with cover have "\<forall>n \<in> set (subtree ?root).
        getId n = ''__proto__'' \<or> map_of (entries ?T) (getId n) \<noteq> None" by auto
    with sound psound None assms show ?thesis
      unfolding walking_def
      by (simp add: perform_def contructJSON_def writeNode_def writeEnd_def callback_def Let_def
            del: subtree.simps)
  next
    case (Some cs)
    with sound psound cover assms show ?thesis
      unfolding walking_def
      by (simp add: perform_def contructJSON_def writeNode_def Let_def del: subtree.simps)
  qed
qed

lemma perform_remaining:
  assumes "composing s0 = []"
  shows "remaining (perform s0) = work (contextDomainObject s0)"
proof (cases "composition (contextDomainObject s0)")
  case None
  then have "work (contextDomainObject s0) = 0"
    by (subst work_unfold) (simp add: childrenOf_def)
  with None assms show ?thesis
    by (simp add: remaining_def perform_def contructJSON_def writeNode_def writeEnd_def
        callback_def Let_def)
next
  case (Some cs)
  with assms show ?thesis
    by (simp add: remaining_def perform_def contructJSON_def writeNode_def Let_def)
qed

lemma sum_list_removeAt:
  assumes "i < length xs"
  shows "sum_list (map f (removeAt i xs)) + f (xs ! i) = (sum_list (map f xs) :: nat)"
proof -
  have "sum_list (map f xs) = sum_list (map f (take i xs @ xs ! i # drop (Suc i) xs))"
    using assms by (simp only: id_take_nth_drop [symmetric])
  then show ?thesis by (simp add: removeAt_def)
qed

lemma sum_list_work_filter:
  "sum_list (map work (filter (\<lambda>c. composition c \<noteq> None) cs)) = sum_list (map work cs)"
proof (induction cs)
  case Nil
  show ?case by simp
next
  case (Cons c cs)
  have "composition c = None \<Longrightarrow> work c = 0"
    by (subst work_unfold) (simp add: childrenOf_def)
  with Cons show ?case by auto
qed

lemma resolve_remaining:
  assumes "walking t0 root ex0 s" "i < length (composing s)"
  shows "remaining (resolve i s) + 1 = remaining s"
proof -
  let ?p = "composing s ! i"
  from assms have m: "?p \<in> set (composing s)" by simp
  with assms(1) have p: "fst ?p = t0" "composition (snd ?p) \<noteq> None"
    by (auto simp: walking_def)
  from assms have c: "calls s > 0" "fst ?p < length (trees s)"
    using p by (auto simp: walking_def)
  have w: "work (snd ?p) = 1 + sum_list (map work (childrenOf (snd ?p)))"
    using p(2) by (subst work_unfold) simp
  have f: "sum_list (map work (filter (\<lambda>c. \<exists>y. composition c = Some y) cs)) =
           sum_list (map work cs)" for cs
    using sum_list_work_filter [of cs] by simp
  have "remaining (resolve i s) =
        sum_list (map (\<lambda>p. work (snd p)) (removeAt i (composing s))) +
        sum_list (map work (childrenOf (snd ?p)))"
    by (simp add: resolve_entered [OF assms(2) c] remaining_def writeEnd_fields entered_fields
        comp_def f)
  moreover have "sum_list (map (\<lambda>p. work (snd p)) (removeAt i (composing s))) + work (snd ?p) =
        remaining s"
    unfolding remaining_def using assms(2) by (rule sum_list_removeAt)
  ultimately show ?thesis using w by simp
qed

lemma resolve_walking:
  assumes "walking t0 root ex0 s" "i < length (composing s)"
  shows "walking t0 root ex0 (resolve i s)"
proof -
  let ?p = "composing s ! i"
  let ?d = "snd ?p"
  let ?cs = "childrenOf ?d"
  let ?new = "map (Pair t0) (filter (\<lambda>c. composition c \<noteq> None) ?cs)"
  let ?T = "fst (trees s ! t0)"
  let ?T' = "fold (\<lambda>c. put (getId c) (getModel c)) ?cs ?T"
  let ?r = "resolve i s"
  from assms have m: "?p \<in> set (composing s)" by simp
  with assms(1) have p: "fst ?p = t0" "composition ?d \<noteq> None"
    "set (subtree ?d) \<subseteq> set (subtree root)"
    by (auto simp: walking_def)
  from assms have c: "calls s > 0" "t0 < length (trees s)" "snd (trees s ! t0) = root"
    "calls s = int (length (composing s))"
    by (auto simp: walking_def)
  from assms(1) have ex: "exported s = ex0" using m by (auto simp: walking_def)
  have r: "?r = writeEnd t0 (entered t0 ?cs (s\<lparr>composing := removeAt i (composing s)\<rparr>))"
    using resolve_entered [OF assms(2) c(1)] c(2) p(1) by simp
  have co: "composing ?r = removeAt i (composing s) @ ?new"
    by (simp add: r writeEnd_fields entered_fields)
  have tr: "trees ?r ! t0 = (?T', root)" and lt: "t0 < length (trees ?r)"
    using c(2,3) by (simp_all add: r writeEnd_fields entered_fields)
  have ca: "calls ?r = int (length (composing ?r))"
    using c(4) assms(2) by (simp add: r writeEnd_fields entered_fields length_removeAt)
  have 3: "fst q = t0 \<and> composition (snd q) \<noteq> None \<and> set (subtree (snd q)) \<subseteq> set (subtree root)"
    if q: "q \<in> set (composing ?r)" for q
  proof -
    from q co consider "q \<in> set (removeAt i (composing s))" | "q \<in> set ?new" by auto
    then show ?thesis
    proof cases
      case 1
      then have "q \<in> set (composing s)" using set_removeAt [of i "composing s"] by blast
      with assms(1) show ?thesis by (auto simp: walking_def)
    next
      case 2
      then obtain ch where ch: "q = (t0, ch)" "ch \<in> set ?cs" "composition ch \<noteq> None" by auto
      from child_subtree [OF ch(2)] p(3) have "set (subtree ch) \<subseteq> set (subtree root)" by blast
      with ch show ?thesis by simp
    qed
  qed
  have 4: "getId n = ''__proto__'' \<or> map_of (entries ?T') (getId n) \<noteq> None \<or>
        (\<exists>q \<in> set (composing ?r). \<exists>ch \<in> set (childrenOf (snd q)). n \<in> set (subtree ch))"
    if n: "n \<in> set (subtree root)" for n
  proof -
    from assms(1) n consider "getId n = ''__proto__''"
      | "map_of (entries ?T) (getId n) \<noteq> None"
      | q ch where "q \<in> set (composing s)" "ch \<in> set (childrenOf (snd q))" "n \<in> set (subtree ch)"
      unfolding walking_def by blast
    then show ?thesis
    proof cases
      case 1
      then show ?thesis by simp
    next
      case 2
      then show ?thesis by (simp add: fold_update_keeps)
    next
      case 3
      show ?thesis
      proof (cases "q \<in> set (removeAt i (composing s))")
        case True
        with 3 co show ?thesis by auto
      next
        case False
        with 3(1) set_removeAt_rest [OF assms(2)] have "q = ?p" by auto
        with 3 have ch: "ch \<in> set ?cs" by simp
        show ?thesis
        proof (cases "n = ch")
          case True
          with ch show ?thesis using fold_update_adds [of ch ?cs ?T] by blast
        next
          case False
          from 3(3) have "n \<in> set (ch # concat (map subtree (childrenOf ch)))"
            by (subst (asm) subtree_unfold)
          with False obtain g where g: "g \<in> set (childrenOf ch)" "n \<in> set (subtree g)" by auto
          then have "composition ch \<noteq> None"
            by (cases "composition ch") (simp_all add: childrenOf_def)
          with ch have "(t0, ch) \<in> set (composing ?r)" by (simp add: co)
          with g show ?thesis by force
        qed
      qed
    qed
  qed
  have 5: "k \<noteq> ''__proto__'' \<and> (\<exists>n \<in> set (subtree root). getId n = k \<and> getModel n = mo)"
    if "map_of (entries ?T') k = Some mo" for k mo
  proof -
    from fold_update_sound [OF that]
    consider "map_of (entries ?T) k = Some mo"
      | ch where "k \<noteq> ''__proto__''" "ch \<in> set ?cs" "getId ch = k" "getModel ch = mo"
      by blast
    then show ?thesis
    proof cases
      case 1
      with assms(1) show ?thesis unfolding walking_def by blast
    next
      case 2
      from child_subtree [OF 2(2)] self_in_subtree [of ch] p(3)
      have "ch \<in> set (subtree root)" by blast
      with 2 show ?thesis by blast
    qed
  qed
  have 7: "\<exists>n \<in> set (subtree root). getId n = ''__proto__'' \<and> getModel n = mo"
    if "prototype ?T' = Some mo" for mo
  proof -
    from fold_prototype_sound [OF that]
    consider "prototype ?T = Some mo"
      | ch where "ch \<in> set ?cs" "getId ch = ''__proto__''" "getModel ch = mo"
      by blast
    then show ?thesis
    proof cases
      case 1
      with assms(1) show ?thesis unfolding walking_def by blast
    next
      case 2
      from child_subtree [OF 2(1)] self_in_subtree [of ch] p(3)
      have "ch \<in> set (subtree root)" by blast
      with 2 show ?thesis by blast
    qed
  qed
  have 6: "exported ?r = ex0 @
       (if composing ?r = []
        then [(wrap ?T', name (getModel root) @ ''.json'')] else [])"
  proof -
    let ?e = "entered t0 ?cs (s\<lparr>composing := removeAt i (composing s)\<rparr>)"
    have "calls ?r = calls ?e - 1" by (simp add: r writeEnd_fields)
    with ca have z: "(calls ?e - 1 = 0) = (composing ?r = [])" by simp
    have "trees ?e ! t0 = (?T', root)" using tr by (simp add: r writeEnd_fields)
    then show ?thesis
      unfolding r writeEnd_fields(4) z [unfolded r] by (simp add: entered_fields ex)
  qed
  from ca lt tr 3 4 5 6 7 show ?thesis
    unfolding walking_def by (simp del: subtree.simps)
qed

lemma run_walking:
  assumes "walking t0 root ex0 s" "valid js s"
  shows "walking t0 root ex0 (fold resolve js s) \<and>
         remaining (fold resolve js s) + length js = remaining s"
  using assms
proof (induction js arbitrary: s)
  case Nil
  then show ?case by simp
next
  case (Cons i js)
  from Cons.prems(2) have i: "i < length (composing s)" and v: "valid js (resolve i s)"
    by simp_all
  from Cons.prems(1) i have w: "walking t0 root ex0 (resolve i s)" by (rule resolve_walking)
  from Cons.prems(1) i have "remaining (resolve i s) + 1 = remaining s"
    by (rule resolve_remaining)
  with Cons.IH [OF w v] show ?case by simp
qed

lemma walking_done:
  assumes "walking t0 root ex0 s"
  shows "composing s = [] \<longleftrightarrow> remaining s = 0"
proof
  assume "composing s = []"
  then show "remaining s = 0" by (simp add: remaining_def)
next
  assume z: "remaining s = 0"
  show "composing s = []"
  proof (rule ccontr)
    assume "composing s \<noteq> []"
    then obtain p where p: "p \<in> set (composing s)" by (cases "composing s") auto
    with assms have "composition (snd p) \<noteq> None" by (auto simp: walking_def)
    then have "work (snd p) > 0" by (subst work_unfold) simp
    moreover from z p have "work (snd p) = 0" by (auto simp: remaining_def)
    ultimately show False by simp
  qed
qed

section \<open>The export of a tree\<close>

lemma writeNode_fields:
  "calls (writeNode t d s) = calls s + (if composition d \<noteq> None then 1 else 0)"
  "composing (writeNode t d s) = composing s @ (if composition d \<noteq> None then [(t, d)] else [])"
  "contextDomainObject (writeNode t d s) = contextDomainObject s"
  by (cases "composition d"; simp add: writeNode_def writeEnd_def callback_def Let_def)+

lemma assign_fields:
  "calls (assign t c s) = calls s"
  "composing (assign t c s) = composing s"
  "contextDomainObject (assign t c s) = contextDomainObject s"
  by (simp_all add: assign_def)

lemma fold_children:
  "slack (fold (\<lambda>child s'. writeNode t child (assign t child s')) cs s) = slack s \<and>
   contextDomainObject (fold (\<lambda>child s'. writeNode t child (assign t child s')) cs s) =
     contextDomainObject s"
  by (induction cs arbitrary: s) (simp_all add: slack_def writeNode_fields assign_fields)

lemma writeEnd_kept:
  "slack (writeEnd t s) = slack s - 1"
  "contextDomainObject (writeEnd t s) = contextDomainObject s"
  by (simp_all add: slack_def writeEnd_def callback_def Let_def)

lemma act_kept:
  "slack s \<le> slack (act e s) \<and> contextDomainObject (act e s) = contextDomainObject s"
proof (cases e)
  case Perform
  then show ?thesis
    by (simp add: perform_def contructJSON_def slack_def writeNode_fields)
next
  case (Resolve i)
  show ?thesis
  proof (cases "i < length (composing s)")
    case True
    obtain t d where p: "composing s ! i = (t, d)" by (cases "composing s ! i")
    let ?s1 = "s\<lparr>composing := removeAt i (composing s)\<rparr>"
    have "slack ?s1 = slack s + 1" using True by (simp add: slack_def length_removeAt)
    then show ?thesis using True p Resolve fold_children [of t "childrenOf d" ?s1]
      by (simp add: resolve_def composed_def writeEnd_kept childrenOf_def)
  next
    case False
    with Resolve show ?thesis by (simp add: resolve_def)
  qed
next
  case (Fail i)
  then show ?thesis by (simp add: rejected_def slack_def length_removeAt)
qed

lemma acts_kept:
  "slack s \<le> slack (fold act ts s) \<and>
   contextDomainObject (fold act ts s) = contextDomainObject s"
proof (induction ts arbitrary: s)
  case Nil
  show ?case by simp
next
  case (Cons e ts)
  from Cons.IH [of "act e s"] act_kept [of s e] show ?case by simp
qed

lemma calls_zero:
  assumes "calls (fold act ts (ExportAsJSONAction d)) = 0"
  shows "composing (fold act ts (ExportAsJSONAction d)) = []"
    and "contextDomainObject (fold act ts (ExportAsJSONAction d)) = d"
proof -
  have "slack (ExportAsJSONAction d) = 0" "contextDomainObject (ExportAsJSONAction d) = d"
    by (simp_all add: slack_def ExportAsJSONAction_def)
  with acts_kept [of "ExportAsJSONAction d" ts]
  have "0 \<le> slack (fold act ts (ExportAsJSONAction d))"
    and c: "contextDomainObject (fold act ts (ExportAsJSONAction d)) = d" by simp_all
  with assms show "composing (fold act ts (ExportAsJSONAction d)) = []"
    by (simp add: slack_def)
  from c show "contextDomainObject (fold act ts (ExportAsJSONAction d)) = d" .
qed

text \<open>
  Claim C2, as amended. An action object has been used in any way (calls of
  \<^verbatim>\<open>perform()\<close>, composition promises resolved or rejected) and its counter
  \<^verbatim>\<open>this.calls\<close> is 0. It performs the export of its context object, no further
  \<^verbatim>\<open>perform()\<close> is called during the walk, and the scheduler resolves outstanding
  composition promises in any order; \<open>js\<close> lists the positions it picks. As many
  promises resolve as the subtree has nodes with a composition capability, and then
  none is outstanding. Until then the export service has received nothing new. At that
  moment it has received exactly one new call: the document \<^verbatim>\<open>{'openmct': tree}\<close> with
  the file name made of the root model's name and \<^verbatim>\<open>.json\<close>, where the tree has an
  own entry under the identifier of every node of the subtree, holding the model of a
  node with that identifier, except under the identifier \<^verbatim>\<open>__proto__\<close>, and no other
  own entry; its prototype has been changed only to the model of a node with the
  identifier \<^verbatim>\<open>__proto__\<close>.
\<close>

theorem export_once:
  assumes "calls (fold act ts (ExportAsJSONAction root)) = 0"
    and "valid js (perform (fold act ts (ExportAsJSONAction root)))"
  shows "let s0 = fold act ts (ExportAsJSONAction root);
             s = fold resolve js (perform s0);
             T = fst (trees s ! length (trees s0))
         in length js \<le> work root \<and>
            (composing s = [] \<longleftrightarrow> length js = work root) \<and>
            (composing s \<noteq> [] \<longrightarrow> exported s = exported s0) \<and>
            (composing s = [] \<longrightarrow>
               exported s = exported s0 @ [(wrap T, name (getModel root) @ ''.json'')] \<and>
               (\<forall>n \<in> set (subtree root). getId n \<noteq> ''__proto__'' \<longrightarrow>
                  (\<exists>n' \<in> set (subtree root).
                     getId n' = getId n \<and> map_of (entries T) (getId n) = Some (getModel n'))) \<and>
               (\<forall>k m. map_of (entries T) k = Some m \<longrightarrow>
                  (\<exists>n \<in> set (subtree root). getId n = k \<and> getModel n = m)) \<and>
               (\<forall>m. prototype T = Some m \<longrightarrow>
                  (\<exists>n \<in> set (subtree root). getId n = ''__proto__'' \<and> getModel n = m)))"
proof -
  let ?init = "fold act ts (ExportAsJSONAction root)"
  let ?tr = "length (trees ?init)"
  let ?s = "fold resolve js (perform ?init)"
  let ?T = "fst (trees ?s ! ?tr)"
  from calls_zero [OF assms(1)]
  have e0: "composing ?init = []" and r0: "contextDomainObject ?init = root" .
  have w0: "walking ?tr root (exported ?init) (perform ?init)"
    using perform_walking [OF assms(1) e0] by (simp only: r0)
  from run_walking [OF w0 assms(2)]
  have w: "walking ?tr root (exported ?init) ?s"
    and r: "remaining ?s + length js = work root"
    by (simp_all add: perform_remaining [OF e0] r0)
  from r have 1: "length js \<le> work root" by simp
  from r walking_done [OF w] have 2: "composing ?s = [] \<longleftrightarrow> length js = work root" by auto
  from w have 3: "composing ?s \<noteq> [] \<longrightarrow> exported ?s = exported ?init"
    by (simp add: walking_def)
  have 4: "exported ?s = exported ?init @ [(wrap ?T, name (getModel root) @ ''.json'')]"
    if "composing ?s = []"
    using w that by (simp add: walking_def)
  have 6: "\<forall>k m. map_of (entries ?T) k = Some m \<longrightarrow>
             (\<exists>n \<in> set (subtree root). getId n = k \<and> getModel n = m)"
    using w unfolding walking_def by blast
  have 7: "\<forall>m. prototype ?T = Some m \<longrightarrow>
             (\<exists>n \<in> set (subtree root). getId n = ''__proto__'' \<and> getModel n = m)"
    using w unfolding walking_def by blast
  have 5: "\<exists>n' \<in> set (subtree root).
             getId n' = getId n \<and> map_of (entries ?T) (getId n) = Some (getModel n')"
    if e: "composing ?s = []" and n: "n \<in> set (subtree root)" and k: "getId n \<noteq> ''__proto__''"
    for n
  proof -
    from w n have "getId n = ''__proto__'' \<or> map_of (entries ?T) (getId n) \<noteq> None \<or>
        (\<exists>p \<in> set (composing ?s). \<exists>c \<in> set (childrenOf (snd p)). n \<in> set (subtree c))"
      unfolding walking_def by blast
    with e k have "map_of (entries ?T) (getId n) \<noteq> None" by simp
    then obtain m where m: "map_of (entries ?T) (getId n) = Some m" by auto
    with 6 obtain n' where "n' \<in> set (subtree root)" "getId n' = getId n" "getModel n' = m"
      by blast
    with m show ?thesis by auto
  qed
  from 1 2 3 4 5 6 7 show ?thesis unfolding Let_def by blast
qed

theorem export_once_witness:
  "calls (fold act [] (ExportAsJSONAction folderRoot)) = 0 \<and>
   valid [0, 0] (perform (fold act [] (ExportAsJSONAction folderRoot))) \<and>
   length [0 :: nat, 0] = work folderRoot \<and>
   composing (fold resolve [0, 0] (perform (ExportAsJSONAction folderRoot))) = [] \<and>
   exported (fold resolve [0] (perform (ExportAsJSONAction folderRoot))) = [] \<and>
   exported (fold resolve [0, 0] (perform (ExportAsJSONAction folderRoot))) =
     [(Openmct \<lparr>entries = [(''r'', Model ''Root'' []), (''a'', Model ''A'' []),
                            (''b'', Model ''B'' []), (''a1'', Model ''A1'' [])],
                 prototype = None\<rparr>,
       ''Root.json'')]"
proof -
  let ?s0 = "ExportAsJSONAction folderRoot"
  have a: "calls (fold act [] ?s0) = 0" by (simp add: ExportAsJSONAction_def)
  have p: "perform ?s0 =
     \<lparr>contextDomainObject = folderRoot, calls = 1,
      trees = [(\<lparr>entries = [(''r'', Model ''Root'' [])], prototype = None\<rparr>, folderRoot)],
      composing = [(0, folderRoot)], exported = []\<rparr>"
    by (simp add: ExportAsJSONAction_def perform_def contructJSON_def writeNode_def Let_def
        folderRoot_def put_def emptyTree_def)
  let ?S1 = "\<lparr>contextDomainObject = folderRoot, calls = 1,
      trees = [(\<lparr>entries = [(''r'', Model ''Root'' []), (''a'', Model ''A'' []),
                             (''b'', Model ''B'' [])], prototype = None\<rparr>,
                folderRoot)],
      composing = [(0, folderA)], exported = []\<rparr>"
  let ?S2 = "\<lparr>contextDomainObject = folderRoot, calls = 0,
      trees = [(\<lparr>entries = [(''r'', Model ''Root'' []), (''a'', Model ''A'' []),
                             (''b'', Model ''B'' []), (''a1'', Model ''A1'' [])],
                  prototype = None\<rparr>, folderRoot)],
      composing = [],
      exported = [(Openmct \<lparr>entries = [(''r'', Model ''Root'' []), (''a'', Model ''A'' []),
                            (''b'', Model ''B'' []), (''a1'', Model ''A1'' [])],
                            prototype = None\<rparr>,
                   ''Root.json'')]\<rparr>"
  have r1: "resolve 0 (perform ?s0) = ?S1"
    unfolding p
    by (simp add: resolve_def composed_def writeNode_def writeEnd_def assign_def removeAt_def
        Let_def folderRoot_def folderA_def leafB_def put_def)
  have r2: "resolve 0 ?S1 = ?S2"
    by (simp add: resolve_def composed_def writeNode_def writeEnd_def assign_def removeAt_def
        callback_def wrap_def Let_def folderRoot_def folderA_def leafA1_def put_def)
  have v: "valid [0, 0] (perform (fold act [] ?s0))"
    by (simp add: r1) (simp add: p)
  have c: "composing (fold resolve [0, 0] (perform ?s0)) = []" by (simp add: r1 r2)
  from export_once [OF a v] c have "length [0 :: nat, 0] = work folderRoot"
    by (simp add: Let_def)
  with a v c show ?thesis by (simp add: r1 r2)
qed

text \<open>
  Claim C2 as stated fails in three ways. When \<^verbatim>\<open>perform()\<close> is called again on the same
  action while the walk of the earlier call still waits for a promise, both walks
  count in the one \<^verbatim>\<open>this.calls\<close>, the first finishes without reaching zero, and when
  both have finished the export service has been called once for the two calls of
  \<^verbatim>\<open>perform()\<close>. When a composition promise of an earlier walk has been rejected,
  \<^verbatim>\<open>this.calls\<close> stays at 1, and a later \<^verbatim>\<open>perform()\<close> whose promises all resolve ends
  its walk without an export. And a node with the identifier \<^verbatim>\<open>__proto__\<close> gets no
  entry in the exported tree: its model becomes the prototype of the tree.
\<close>

theorem overlapping_performs_export_once:
  "composing (perform (ExportAsJSONAction folderA)) = [(0, folderA)] \<and>
   composing (perform (perform (ExportAsJSONAction folderA))) = [(0, folderA), (Suc 0, folderA)] \<and>
   exported (resolve 0 (perform (perform (ExportAsJSONAction folderA)))) = [] \<and>
   composing (fold resolve [0, 0] (perform (perform (ExportAsJSONAction folderA)))) = [] \<and>
   exported (fold resolve [0, 0] (perform (perform (ExportAsJSONAction folderA)))) =
     [(Openmct \<lparr>entries = [(''a'', Model ''A'' []), (''a1'', Model ''A1'' [])],
                 prototype = None\<rparr>, ''A.json'')] \<and>
   calls (fold act [Perform, Fail 0] (ExportAsJSONAction folderA)) = 1 \<and>
   composing (fold act [Perform, Fail 0] (ExportAsJSONAction folderA)) = [] \<and>
   composing (fold act [Perform, Fail 0, Perform, Resolve 0] (ExportAsJSONAction folderA)) = [] \<and>
   exported (fold act [Perform, Fail 0, Perform, Resolve 0] (ExportAsJSONAction folderA)) = [] \<and>
   leafProto \<in> set (subtree folderP) \<and>
   composing (fold act [Perform, Resolve 0] (ExportAsJSONAction folderP)) = [] \<and>
   exported (fold act [Perform, Resolve 0] (ExportAsJSONAction folderP)) =
     [(Openmct \<lparr>entries = [(''p'', Model ''Folder'' [])], prototype = Some (Model ''P'' [])\<rparr>,
       ''Folder.json'')]"
proof -
  let ?T0 = "\<lparr>entries = [(''a'', Model ''A'' [])], prototype = None\<rparr>"
  let ?T1 = "\<lparr>entries = [(''a'', Model ''A'' []), (''a1'', Model ''A1'' [])], prototype = None\<rparr>"
  let ?P1 = "\<lparr>contextDomainObject = folderA, calls = 1, trees = [(?T0, folderA)],
      composing = [(0, folderA)], exported = []\<rparr>"
  let ?P2 = "\<lparr>contextDomainObject = folderA, calls = 2,
      trees = [(?T0, folderA), (?T0, folderA)],
      composing = [(0, folderA), (Suc 0, folderA)], exported = []\<rparr>"
  let ?R1 = "\<lparr>contextDomainObject = folderA, calls = 1,
      trees = [(?T1, folderA), (?T0, folderA)],
      composing = [(Suc 0, folderA)], exported = []\<rparr>"
  let ?R2 = "\<lparr>contextDomainObject = folderA, calls = 0,
      trees = [(?T1, folderA), (?T1, folderA)],
      composing = [], exported = [(Openmct ?T1, ''A.json'')]\<rparr>"
  let ?F1 = "\<lparr>contextDomainObject = folderA, calls = 1, trees = [(?T0, folderA)],
      composing = [], exported = []\<rparr>"
  let ?F2 = "\<lparr>contextDomainObject = folderA, calls = 2,
      trees = [(?T0, folderA), (?T0, folderA)],
      composing = [(Suc 0, folderA)], exported = []\<rparr>"
  let ?F3 = "\<lparr>contextDomainObject = folderA, calls = 1,
      trees = [(?T0, folderA), (?T1, folderA)],
      composing = [], exported = []\<rparr>"
  let ?Q0 = "\<lparr>entries = [(''p'', Model ''Folder'' [])], prototype = None\<rparr>"
  let ?Q1 = "\<lparr>entries = [(''p'', Model ''Folder'' [])], prototype = Some (Model ''P'' [])\<rparr>"
  let ?G1 = "\<lparr>contextDomainObject = folderP, calls = 1, trees = [(?Q0, folderP)],
      composing = [(0, folderP)], exported = []\<rparr>"
  let ?G2 = "\<lparr>contextDomainObject = folderP, calls = 0, trees = [(?Q1, folderP)],
      composing = [], exported = [(Openmct ?Q1, ''Folder.json'')]\<rparr>"
  have p1: "perform (ExportAsJSONAction folderA) = ?P1"
    by (simp add: ExportAsJSONAction_def perform_def contructJSON_def writeNode_def Let_def
        folderA_def put_def emptyTree_def)
  have p2: "perform ?P1 = ?P2"
    by (simp add: perform_def contructJSON_def writeNode_def Let_def folderA_def put_def
        emptyTree_def)
  have r1: "resolve 0 ?P2 = ?R1"
    by (simp add: resolve_def composed_def writeNode_def writeEnd_def assign_def removeAt_def
        Let_def folderA_def leafA1_def put_def)
  have r2: "resolve 0 ?R1 = ?R2"
    by (simp add: resolve_def composed_def writeNode_def writeEnd_def assign_def removeAt_def
        callback_def wrap_def Let_def folderA_def leafA1_def put_def)
  have f1: "rejected 0 ?P1 = ?F1" by (simp add: rejected_def removeAt_def)
  have f2: "perform ?F1 = ?F2"
    by (simp add: perform_def contructJSON_def writeNode_def Let_def folderA_def put_def
        emptyTree_def)
  have f3: "resolve 0 ?F2 = ?F3"
    by (simp add: resolve_def composed_def writeNode_def writeEnd_def assign_def removeAt_def
        Let_def folderA_def leafA1_def put_def)
  have g1: "perform (ExportAsJSONAction folderP) = ?G1"
    by (simp add: ExportAsJSONAction_def perform_def contructJSON_def writeNode_def Let_def
        folderP_def put_def emptyTree_def)
  have g2: "resolve 0 ?G1 = ?G2"
    by (simp add: resolve_def composed_def writeNode_def writeEnd_def assign_def removeAt_def
        callback_def wrap_def Let_def folderP_def leafProto_def put_def)
  have m: "leafProto \<in> set (subtree folderP)" by (simp add: folderP_def leafProto_def)
  show ?thesis by (simp add: p1 p2 r1 r2 f1 f2 f3 g1 g2 m)
qed

end
